theory Spec2Isabelle
  imports Main
begin

section \<open>JavaScript values\<close>

text \<open>
  The feed items, the replies of the two web services and the rows read from the database
  are untyped JavaScript values. Numbers are restricted to integers; characters are the
  code units below 256. \<open>Builtin\<close> is a method that a value inherits, by its name.
\<close>

datatype jsval =
    Undefined
  | Null
  | Bool bool
  | Num int
  | Str string
  | Arr "jsval list"
  | Obj "(string \<times> jsval) list"
  | Builtin string

text \<open>
  A thrown value: the \<open>TypeError\<close> of the language itself (a property read on
  \<open>null\<close> or \<open>undefined\<close>, a call of something that is no function), or
  the rejection of a promise by a collaborator, with its message.
\<close>

datatype error = TypeError | Failure string

definition andThen :: "error + 'a \<Rightarrow> ('a \<Rightarrow> error + 'b) \<Rightarrow> error + 'b" where
  "andThen r f = (case r of Inl e \<Rightarrow> Inl e | Inr v \<Rightarrow> f v)"

text \<open>Truthiness: \<open>if (v)\<close>, \<open>!v\<close>, \<open>a && b\<close>, \<open>a || b\<close>.\<close>

fun truthy :: "jsval \<Rightarrow> bool" where
  "truthy Undefined = False"
| "truthy Null = False"
| "truthy (Bool b) = b"
| "truthy (Num n) = (n \<noteq> 0)"
| "truthy (Str s) = (s \<noteq> [])"
| "truthy (Arr vs) = True"
| "truthy (Obj kvs) = True"
| "truthy (Builtin m) = True"

definition lookup :: "(string \<times> jsval) list \<Rightarrow> string \<Rightarrow> jsval" where
  "lookup kvs k = (case map_of kvs k of None \<Rightarrow> Undefined | Some v \<Rightarrow> v)"

text \<open>
  \<open>v.k\<close> and \<open>v['k']\<close>. The read throws on \<open>null\<close> and \<open>undefined\<close>. Of the names
  the program reads (\<open>$\<close>, \<open>url\<close>, \<^verbatim>\<open>@_url\<close>, \<open>type\<close>, \<open>medium\<close>, \<open>content\<close>,
  \<open>media\<close>, \<open>media:content\<close>, \<open>media:thumbnail\<close>, \<open>enclosure\<close>, \<open>data\<close>,
  \<open>choices\<close>, \<open>message\<close>, \<open>objects\<close>, \<open>text\<close>, \<open>items\<close>, \<open>title\<close>, \<open>link\<close>,
  \<open>pubDate\<close>) one is inherited: a string has the method \<open>link\<close>. No other is a
  built-in property of a string, a number, a boolean, an array, an object or a function,
  so on these the read gives \<open>undefined\<close>.
\<close>

fun getprop :: "jsval \<Rightarrow> string \<Rightarrow> error + jsval" where
  "getprop Undefined k = Inl TypeError"
| "getprop Null k = Inl TypeError"
| "getprop (Obj kvs) k = Inr (lookup kvs k)"
| "getprop (Str s) k = Inr (if k = ''link'' then Builtin ''link'' else Undefined)"
| "getprop v k = Inr Undefined"

text \<open>\<open>a && a.k\<close>: the left operand when it is falsy, the property otherwise.\<close>

definition and_prop :: "jsval \<Rightarrow> string \<Rightarrow> error + jsval" where
  "and_prop a k = (if truthy a then getprop a k else Inr a)"

text \<open>\<open>vs[0]\<close> on an array.\<close>

fun index0 :: "jsval list \<Rightarrow> jsval" where
  "index0 [] = Undefined"
| "index0 (v # vs) = v"

text \<open>\<open>v.startsWith(p)\<close>: only a string has the method.\<close>

fun startsWith :: "jsval \<Rightarrow> string \<Rightarrow> error + bool" where
  "startsWith (Str s) p = Inr (take (length p) s = p)"
| "startsWith v p = Inl TypeError"

text \<open>\<open>vs.find(p)\<close>: the first element the callback accepts; the callback may throw.\<close>

fun find_js :: "(jsval \<Rightarrow> error + bool) \<Rightarrow> jsval list \<Rightarrow> error + jsval" where
  "find_js p [] = Inr Undefined"
| "find_js p (v # vs) =
     (case p v of
        Inl e \<Rightarrow> Inl e
      | Inr b \<Rightarrow> if b then Inr v else find_js p vs)"

text \<open>\<open>typeof v === 'object'\<close>.\<close>

fun is_object :: "jsval \<Rightarrow> bool" where
  "is_object Null = True"
| "is_object (Arr vs) = True"
| "is_object (Obj kvs) = True"
| "is_object v = False"

section \<open>The media extractor\<close>

text \<open>
  The callback of the two searches of a media collection:
  \<open>media.$ && (media.$.medium === 'image' || (media.$.type && media.$.type.startsWith('image/')))\<close>.
\<close>

definition is_image_media :: "jsval \<Rightarrow> error + bool" where
  "is_image_media media =
     andThen (getprop media ''$'') (\<lambda>a.
       if \<not> truthy a then Inr False
       else andThen (getprop a ''medium'') (\<lambda>m.
         if m = Str ''image'' then Inr True
         else andThen (getprop a ''type'') (\<lambda>t.
           if \<not> truthy t then Inr False else startsWith t ''image/'')))"

text \<open>
  The test of an enclosure: \<open>e.$ && e.$.type && e.$.type.startsWith('image/')\<close>.
\<close>

definition is_image_enclosure :: "jsval \<Rightarrow> error + bool" where
  "is_image_enclosure e =
     andThen (getprop e ''$'') (\<lambda>a.
       if \<not> truthy a then Inr False
       else andThen (getprop a ''type'') (\<lambda>t.
         if \<not> truthy t then Inr False else startsWith t ''image/''))"

text \<open>\<open>o.url || o['@_url'] || ''\<close>.\<close>

definition flat_url :: "jsval \<Rightarrow> error + jsval" where
  "flat_url o' =
     andThen (getprop o' ''url'') (\<lambda>u.
       if truthy u then Inr u
       else andThen (getprop o' ''@_url'') (\<lambda>v.
         if truthy v then Inr v else Inr (Str [])))"

text \<open>Method 1: \<open>item['media:content']\<close>. Each method returns the new \<open>imageUrl\<close>.\<close>

definition method1 :: "jsval \<Rightarrow> jsval \<Rightarrow> error + jsval" where
  "method1 item imageUrl =
     andThen (getprop item ''media:content'') (\<lambda>mediaContent.
       if \<not> truthy mediaContent then Inr imageUrl
       else case mediaContent of
         Arr ms \<Rightarrow>
           andThen (find_js is_image_media ms) (\<lambda>imageMedia.
             andThen (and_prop imageMedia ''$'') (\<lambda>a.
               if truthy a then getprop a ''url''
               else andThen (and_prop (index0 ms) ''$'') (\<lambda>b.
                 if truthy b then getprop b ''url'' else Inr imageUrl)))
       | _ \<Rightarrow>
           andThen (and_prop mediaContent ''$'') (\<lambda>a.
             if truthy a then getprop a ''url''
             else if is_object mediaContent then flat_url mediaContent
             else Inr imageUrl))"

text \<open>Method 2: \<open>item.media.content\<close>.\<close>

definition method2 :: "jsval \<Rightarrow> jsval \<Rightarrow> error + jsval" where
  "method2 item imageUrl =
     (if truthy imageUrl then Inr imageUrl
      else andThen (getprop item ''media'') (\<lambda>media.
        andThen (and_prop media ''content'') (\<lambda>mediaContent.
          if \<not> truthy mediaContent then Inr imageUrl
          else case mediaContent of
            Arr ms \<Rightarrow>
              andThen (find_js is_image_media ms) (\<lambda>found.
                let m = (if truthy found then found else index0 ms) in
                andThen (and_prop m ''$'') (\<lambda>a.
                  if truthy a then getprop a ''url'' else Inr (Str [])))
          | _ \<Rightarrow>
              andThen (and_prop mediaContent ''$'') (\<lambda>a.
                if truthy a then getprop a ''url'' else Inr imageUrl))))"

text \<open>Method 3: \<open>item['media:thumbnail']\<close>.\<close>

definition method3 :: "jsval \<Rightarrow> jsval \<Rightarrow> error + jsval" where
  "method3 item imageUrl =
     (if truthy imageUrl then Inr imageUrl
      else andThen (getprop item ''media:thumbnail'') (\<lambda>thumbnail.
        if \<not> truthy thumbnail then Inr imageUrl
        else andThen (and_prop thumbnail ''$'') (\<lambda>a.
          if truthy a then getprop a ''url''
          else if is_object thumbnail then flat_url thumbnail
          else Inr imageUrl)))"

text \<open>Method 4: \<open>item.enclosure\<close>.\<close>

definition method4 :: "jsval \<Rightarrow> jsval \<Rightarrow> error + jsval" where
  "method4 item imageUrl =
     (if truthy imageUrl then Inr imageUrl
      else andThen (getprop item ''enclosure'') (\<lambda>enclosure.
        if \<not> truthy enclosure then Inr imageUrl
        else case enclosure of
          Arr es \<Rightarrow>
            andThen (find_js is_image_enclosure es) (\<lambda>imageEnclosure.
              andThen (and_prop imageEnclosure ''$'') (\<lambda>a.
                if truthy a then getprop a ''url'' else Inr imageUrl))
        | _ \<Rightarrow>
            andThen (is_image_enclosure enclosure) (\<lambda>img.
              if img then andThen (getprop enclosure ''$'') (\<lambda>a. getprop a ''url'')
              else if is_object enclosure then
                andThen (getprop enclosure ''type'') (\<lambda>t.
                  if \<not> truthy t then Inr imageUrl
                  else andThen (startsWith t ''image/'') (\<lambda>img'.
                    if img' then
                      andThen (getprop enclosure ''url'') (\<lambda>u.
                        if truthy u then Inr u else Inr (Str []))
                    else Inr imageUrl))
              else Inr imageUrl)))"

text \<open>
  \<open>extractMediaUrl(item)\<close>: \<open>imageUrl\<close> starts as the empty string and goes through the
  four methods; \<open>Inl\<close> is a throw, \<open>Inr\<close> the returned value.
\<close>

definition extractMediaUrl :: "jsval \<Rightarrow> error + jsval" where
  "extractMediaUrl item =
     andThen (method1 item (Str [])) (\<lambda>u1.
       andThen (method2 item u1) (\<lambda>u2.
         andThen (method3 item u2) (\<lambda>u3.
           method4 item u3)))"

section \<open>Strings: trimming and counting words\<close>

text \<open>
  The white space of \<open>trim()\<close> and of the pattern class \<open>\s\<close> is the same set; below
  256 it is tab, line feed, vertical tab, form feed, carriage return, space and the
  no-break space.
\<close>

definition is_space :: "char \<Rightarrow> bool" where
  "is_space c = (of_char c \<in> {9, 10, 11, 12, 13, 32, 160 :: nat})"

definition trim :: "string \<Rightarrow> string" where
  "trim s = rev (dropWhile is_space (rev (dropWhile is_space s)))"

text \<open>
  \<open>s.split(/\s+/)\<close>: the pieces between the maximal runs of white space. A run at the
  start or at the end leaves an empty piece there, and the empty string splits into one
  empty piece. \<open>sep\<close> says that the previous character was white space, \<open>cur\<close> is the
  piece being read, reversed.
\<close>

fun split_from :: "bool \<Rightarrow> string \<Rightarrow> string \<Rightarrow> string list" where
  "split_from sep cur [] = [rev cur]"
| "split_from sep cur (c # cs) =
     (if is_space c
      then (if sep then split_from True cur cs else rev cur # split_from True [] cs)
      else split_from False (c # cur) cs)"

definition split_ws :: "string \<Rightarrow> string list" where
  "split_ws s = split_from False [] s"

text \<open>\<open>v.split(/\s+/).length\<close>: only a string has the method.\<close>

fun split_length :: "jsval \<Rightarrow> error + nat" where
  "split_length (Str s) = Inr (length (split_ws s))"
| "split_length v = Inl TypeError"

section \<open>Optional chaining\<close>

fun nullish :: "jsval \<Rightarrow> bool" where
  "nullish Undefined = True"
| "nullish Null = True"
| "nullish v = False"

text \<open>\<open>v?.k\<close>: \<open>undefined\<close> on \<open>null\<close> and \<open>undefined\<close>, the property otherwise.\<close>

fun opt_prop :: "jsval \<Rightarrow> string \<Rightarrow> jsval" where
  "opt_prop (Obj kvs) k = lookup kvs k"
| "opt_prop (Str s) k = (if k = ''link'' then Builtin ''link'' else Undefined)"
| "opt_prop v k = Undefined"

text \<open>
  \<open>v?.[0]\<close>: the first element of an array, the property \<open>0\<close> of an object, the first
  character of a string.
\<close>

fun opt_index0 :: "jsval \<Rightarrow> jsval" where
  "opt_index0 (Arr vs) = index0 vs"
| "opt_index0 (Obj kvs) = lookup kvs ''0''"
| "opt_index0 (Str s) = (case s of [] \<Rightarrow> Undefined | c # cs \<Rightarrow> Str [c])"
| "opt_index0 v = Undefined"

text \<open>\<open>v?.trim()\<close>: \<open>undefined\<close> on \<open>null\<close> and \<open>undefined\<close>; only a string has the method.\<close>

fun opt_trim :: "jsval \<Rightarrow> error + jsval" where
  "opt_trim Undefined = Inr Undefined"
| "opt_trim Null = Inr Undefined"
| "opt_trim (Str s) = Inr (Str (trim s))"
| "opt_trim v = Inl TypeError"

section \<open>The world: database, collaborators, observable events\<close>

record newsItem =
  title :: jsval
  link :: jsval
  source :: jsval
  image :: jsval
  categoryId :: jsval
  pubDate :: jsval

record feed_row =
  rss_url :: string
  category_id :: jsval
  feed_status :: nat

text \<open>A row of \<open>blogs\<close>, with the columns of the insert statement and the generated id.\<close>

record blog_row =
  blog_id :: nat
  blog_type :: string
  blog_title :: jsval
  description :: jsval
  source_img :: jsval
  source_name :: jsval
  source_link :: jsval
  created_by :: nat
  blog_status :: nat
  pub_date :: jsval

text \<open>A row of \<open>blog_categories\<close>: blog id, category id, type.\<close>

type_synonym category_row = "nat \<times> jsval \<times> string"

text \<open>The two prompts of the summarizer, each built around the article text.\<close>

datatype prompt = Primary jsval | Escalated jsval

text \<open>What the program writes to the console.\<close>

datatype logmsg =
    SkipProcessed jsval
  | SkipNotToday jsval
  | Processing jsval
  | NoArticle jsval
  | SummaryFailed jsval
  | NewsInserted jsval nat jsval
  | ProcessingError error
  | SummaryTooShort nat
  | SummarizationError error
  | FeedError string error
  | FoundItems nat
  | ProcessingUpTo nat
  | Completed nat

text \<open>
  The observable events of a run, in the order they happen: the calls to the database,
  to the feed parser and to the two paid services, the delays and the console output.
\<close>

datatype event =
    CreatePool
  | QueryFeeds
  | ParseURL string
  | QueryBlogs jsval
  | DiffbotGet jsval
  | OpenRouterPost prompt
  | InsertBlog jsval
  | InsertCategory nat jsval
  | Delay nat
  | PoolEnd
  | Log logmsg

record world =
  rss_feeds :: "feed_row list"
  blogs :: "blog_row list"
  blog_categories :: "category_row list"
  trace :: "event list"

text \<open>
  The collaborators answer as they please. Each answer is a function of the moment of the
  call, the number of events so far, so that two calls never have to agree. Any call to
  the database, to the parser or to a service may throw.
\<close>

record env =
  createPool :: "error option"
  db_fault :: "nat \<Rightarrow> error option"
  insertId :: "nat \<Rightarrow> nat"
  pool_end :: "nat \<Rightarrow> error option"
  parseURL :: "nat \<Rightarrow> string \<Rightarrow> error + jsval"
  now :: "nat \<Rightarrow> string"
  sameDay :: "nat \<Rightarrow> jsval \<Rightarrow> bool"
  diffbot :: "nat \<Rightarrow> jsval \<Rightarrow> error + jsval"
  openrouter :: "nat \<Rightarrow> prompt \<Rightarrow> error + jsval"

definition clock :: "world \<Rightarrow> nat" where
  "clock w = length (trace w)"

definition emit :: "event \<Rightarrow> world \<Rightarrow> world" where
  "emit e w = w\<lparr>trace := trace w @ [e]\<rparr>"

section \<open>Database operations\<close>

text \<open>\<open>fetchRSSFeeds\<close>: the active rows of \<open>rss_feeds\<close>.\<close>

definition fetchRSSFeeds :: "env \<Rightarrow> world \<Rightarrow> (error + feed_row list) \<times> world" where
  "fetchRSSFeeds E w =
     (case db_fault E (clock w) of
        Some e \<Rightarrow> (Inl e, emit QueryFeeds w)
      | None \<Rightarrow> (Inr (filter (\<lambda>f. feed_status f = 1) (rss_feeds w)), emit QueryFeeds w))"

text \<open>\<open>isNewsProcessed\<close>: is there a row of \<open>blogs\<close> with this source link.\<close>

definition isNewsProcessed :: "env \<Rightarrow> jsval \<Rightarrow> world \<Rightarrow> (error + bool) \<times> world" where
  "isNewsProcessed E url w =
     (case db_fault E (clock w) of
        Some e \<Rightarrow> (Inl e, emit (QueryBlogs url) w)
      | None \<Rightarrow>
          (Inr (0 < length (filter (\<lambda>r. source_link r = url) (blogs w))),
           emit (QueryBlogs url) w))"

text \<open>The insert into \<open>blogs\<close>; the result carries the generated id.\<close>

definition insertBlog ::
  "env \<Rightarrow> newsItem \<Rightarrow> jsval \<Rightarrow> world \<Rightarrow> (error + nat) \<times> world" where
  "insertBlog E newsItem summary w =
     (case db_fault E (clock w) of
        Some e \<Rightarrow> (Inl e, emit (InsertBlog (link newsItem)) w)
      | None \<Rightarrow>
          (Inr (insertId E (clock w)),
           emit (InsertBlog (link newsItem))
             (w\<lparr>blogs := blogs w @
                [\<lparr>blog_id = insertId E (clock w), blog_type = ''post'',
                  blog_title = title newsItem, description = summary,
                  source_img = image newsItem, source_name = source newsItem,
                  source_link = link newsItem, created_by = 1, blog_status = 1,
                  pub_date = pubDate newsItem\<rparr>]\<rparr>)))"

text \<open>The insert into \<open>blog_categories\<close>.\<close>

definition insertCategory ::
  "env \<Rightarrow> nat \<Rightarrow> jsval \<Rightarrow> world \<Rightarrow> (error + unit) \<times> world" where
  "insertCategory E insertedBlogId cat w =
     (case db_fault E (clock w) of
        Some e \<Rightarrow> (Inl e, emit (InsertCategory insertedBlogId cat) w)
      | None \<Rightarrow>
          (Inr (),
           emit (InsertCategory insertedBlogId cat)
             (w\<lparr>blog_categories := blog_categories w @
                [(insertedBlogId, cat, ''category'')]\<rparr>)))"

text \<open>
  \<open>isNewsFromToday\<close>: a missing date is not today's; otherwise the day, month and year of
  the date are compared with those of the clock.
\<close>

definition isNewsFromToday :: "env \<Rightarrow> jsval \<Rightarrow> world \<Rightarrow> bool" where
  "isNewsFromToday E pd w = (if \<not> truthy pd then False else sameDay E (clock w) pd)"

section \<open>The summarizer\<close>

text \<open>
  \<open>summarizationResponse.data.choices?.[0]?.message?.content?.trim()\<close>: the two plain
  reads throw on a missing object, the optional ones give \<open>undefined\<close>.
\<close>

definition summary_of :: "jsval \<Rightarrow> error + jsval" where
  "summary_of response =
     andThen (getprop response ''data'') (\<lambda>data.
       andThen (getprop data ''choices'') (\<lambda>choices.
         opt_trim (opt_prop (opt_prop (opt_index0 choices) ''message'') ''content'')))"

text \<open>\<open>summary ? summary.split(/\s+/).length : 0\<close>.\<close>

definition wordCount :: "jsval \<Rightarrow> error + nat" where
  "wordCount summary = (if truthy summary then split_length summary else Inr 0)"

text \<open>
  One attempt, up to the decision: the call to the service, then the summary and its
  word count. \<open>Inl\<close> is what the \<open>catch\<close> of the summarizer receives.
\<close>

definition attempt :: "env \<Rightarrow> nat \<Rightarrow> prompt \<Rightarrow> error + jsval \<times> nat" where
  "attempt E t p =
     andThen (openrouter E t p) (\<lambda>response.
       andThen (summary_of response) (\<lambda>summary.
         andThen (wordCount summary) (\<lambda>n. Inr (summary, n))))"

definition prompt_for :: "jsval \<Rightarrow> nat \<Rightarrow> prompt" where
  "prompt_for articleText retryCount =
     (if retryCount = 0 then Primary articleText else Escalated articleText)"

text \<open>
  \<open>summarizeContent(articleText, retryCount)\<close>. It returns the summary (a string, or
  \<open>undefined\<close> when the reply has no content) or \<open>null\<close> after a throw.
\<close>

function summarizeContent :: "env \<Rightarrow> jsval \<Rightarrow> nat \<Rightarrow> world \<Rightarrow> jsval \<times> world" where
  "summarizeContent E articleText retryCount w =
     (case attempt E (clock w) (prompt_for articleText retryCount) of
        Inl e \<Rightarrow>
          (Null,
           emit (Log (SummarizationError e))
             (emit (OpenRouterPost (prompt_for articleText retryCount)) w))
      | Inr (summary, n) \<Rightarrow>
          if truthy summary \<and> n < 50 \<and> retryCount < 4
          then summarizeContent E articleText (retryCount + 1)
                 (emit (Log (SummaryTooShort n))
                    (emit (OpenRouterPost (prompt_for articleText retryCount)) w))
          else (summary, emit (OpenRouterPost (prompt_for articleText retryCount)) w))"
  by pat_completeness auto
termination
  by (relation "measure (\<lambda>(E, a, retryCount, w). 4 - retryCount)") auto

section \<open>Processing one candidate\<close>

text \<open>The call to the extraction service.\<close>

definition diffbotGet :: "env \<Rightarrow> jsval \<Rightarrow> world \<Rightarrow> (error + jsval) \<times> world" where
  "diffbotGet E url w = (diffbot E (clock w) url, emit (DiffbotGet url) w)"

text \<open>\<open>diffbotResponse.data.objects?.[0]\<close>.\<close>

definition article_of :: "jsval \<Rightarrow> error + jsval" where
  "article_of response =
     andThen (getprop response ''data'') (\<lambda>data.
       andThen (getprop data ''objects'') (\<lambda>objects. Inr (opt_index0 objects)))"

text \<open>\<open>!summary || summary.split(/\s+/).length < 50\<close>.\<close>

definition rejected :: "jsval \<Rightarrow> error + bool" where
  "rejected summary =
     (if \<not> truthy summary then Inr True
      else andThen (split_length summary) (\<lambda>n. Inr (n < 50)))"

text \<open>
  The body of the \<open>try\<close> of \<open>processNews\<close>: \<open>Inl\<close> is a throw, \<open>Inr None\<close> the return of
  \<open>null\<close>, \<open>Inr (Some id)\<close> the return of the inserted id.
\<close>

definition processNews_try ::
  "env \<Rightarrow> newsItem \<Rightarrow> world \<Rightarrow> (error + nat option) \<times> world" where
  "processNews_try E newsItem w =
     (case isNewsProcessed E (link newsItem) w of
        (Inl e, w1) \<Rightarrow> (Inl e, w1)
      | (Inr processed, w1) \<Rightarrow>
          if processed then (Inr None, emit (Log (SkipProcessed (link newsItem))) w1)
          else if \<not> isNewsFromToday E (pubDate newsItem) w1
          then (Inr None, emit (Log (SkipNotToday (link newsItem))) w1)
          else
            (case diffbotGet E (link newsItem) (emit (Log (Processing (link newsItem))) w1) of
               (Inl e, w2) \<Rightarrow> (Inl e, w2)
             | (Inr diffbotResponse, w2) \<Rightarrow>
                 (case article_of diffbotResponse of
                    Inl e \<Rightarrow> (Inl e, w2)
                  | Inr article \<Rightarrow>
                      if \<not> truthy article \<or> \<not> truthy (opt_prop article ''text'')
                      then (Inr None, emit (Log (NoArticle (link newsItem))) w2)
                      else
                        (case summarizeContent E (opt_prop article ''text'') 0 w2 of
                           (summary, w3) \<Rightarrow>
                             (case rejected summary of
                                Inl e \<Rightarrow> (Inl e, w3)
                              | Inr short \<Rightarrow>
                                  if short
                                  then (Inr None, emit (Log (SummaryFailed (link newsItem))) w3)
                                  else
                                    (case insertBlog E newsItem summary w3 of
                                       (Inl e, w4) \<Rightarrow> (Inl e, w4)
                                     | (Inr insertedBlogId, w4) \<Rightarrow>
                                         (case (if insertedBlogId \<noteq> 0 \<and> truthy (categoryId newsItem)
                                                then insertCategory E insertedBlogId
                                                       (categoryId newsItem) w4
                                                else (Inr (), w4)) of
                                            (Inl e, w5) \<Rightarrow> (Inl e, w5)
                                          | (Inr u, w5) \<Rightarrow>
                                              (Inr (Some insertedBlogId),
                                               emit (Log (NewsInserted (title newsItem)
                                                            insertedBlogId (categoryId newsItem)))
                                                 w5))))))))"

text \<open>\<open>processNews\<close>: the \<open>catch\<close> logs the error and returns \<open>null\<close>.\<close>

definition processNews :: "env \<Rightarrow> newsItem \<Rightarrow> world \<Rightarrow> nat option \<times> world" where
  "processNews E newsItem w =
     (case processNews_try E newsItem w of
        (Inl e, w') \<Rightarrow> (None, emit (Log (ProcessingError e)) w')
      | (Inr r, w') \<Rightarrow> (r, w'))"

section \<open>The run\<close>

text \<open>The candidate built from one item of a parsed feed.\<close>

definition candidate :: "env \<Rightarrow> nat \<Rightarrow> jsval \<Rightarrow> feed_row \<Rightarrow> jsval \<Rightarrow> error + newsItem" where
  "candidate E t parsedFeed feed item =
     andThen (extractMediaUrl item) (\<lambda>imageUrl.
       andThen (getprop item ''title'') (\<lambda>ttl.
         andThen (getprop item ''link'') (\<lambda>lnk.
           andThen (getprop parsedFeed ''title'') (\<lambda>src.
             andThen (getprop item ''pubDate'') (\<lambda>pd.
               Inr \<lparr>title = ttl, link = lnk, source = src, image = imageUrl,
                    categoryId = category_id feed,
                    pubDate = (if truthy pd then pd else Str (now E t))\<rparr>)))))"

text \<open>
  \<open>parsedFeed.items.forEach(...)\<close>: the candidates pushed before a throw stay in
  \<open>newsLinks\<close>.
\<close>

fun pushItems ::
  "env \<Rightarrow> nat \<Rightarrow> jsval \<Rightarrow> feed_row \<Rightarrow> jsval list \<Rightarrow> newsItem list
     \<Rightarrow> error option \<times> newsItem list" where
  "pushItems E t parsedFeed feed [] newsLinks = (None, newsLinks)"
| "pushItems E t parsedFeed feed (item # items) newsLinks =
     (case candidate E t parsedFeed feed item of
        Inl e \<Rightarrow> (Some e, newsLinks)
      | Inr c \<Rightarrow> pushItems E t parsedFeed feed items (newsLinks @ [c]))"

text \<open>The items of a parsed feed: \<open>forEach\<close> exists on an array only.\<close>

definition items_of :: "jsval \<Rightarrow> error + jsval list" where
  "items_of parsedFeed =
     andThen (getprop parsedFeed ''items'') (\<lambda>items.
       case items of Arr its \<Rightarrow> Inr its | _ \<Rightarrow> Inl TypeError)"

text \<open>The loop over the feeds; a feed that throws is logged and skipped.\<close>

fun aggregate :: "env \<Rightarrow> feed_row list \<Rightarrow> newsItem list \<Rightarrow> world \<Rightarrow> newsItem list \<times> world" where
  "aggregate E [] newsLinks w = (newsLinks, w)"
| "aggregate E (feed # feeds) newsLinks w =
     (case parseURL E (clock w) (rss_url feed) of
        Inl e \<Rightarrow>
          aggregate E feeds newsLinks
            (emit (Log (FeedError (rss_url feed) e)) (emit (ParseURL (rss_url feed)) w))
      | Inr parsedFeed \<Rightarrow>
          (case items_of parsedFeed of
             Inl e \<Rightarrow>
               aggregate E feeds newsLinks
                 (emit (Log (FeedError (rss_url feed) e)) (emit (ParseURL (rss_url feed)) w))
           | Inr its \<Rightarrow>
               (case pushItems E (Suc (clock w)) parsedFeed feed its newsLinks of
                  (Some e, newsLinks') \<Rightarrow>
                    aggregate E feeds newsLinks'
                      (emit (Log (FeedError (rss_url feed) e)) (emit (ParseURL (rss_url feed)) w))
                | (None, newsLinks') \<Rightarrow>
                    aggregate E feeds newsLinks' (emit (ParseURL (rss_url feed)) w))))"

text \<open>\<open>Math.min(3, newsLinks.length)\<close>.\<close>

definition itemsToProcess :: "newsItem list \<Rightarrow> nat" where
  "itemsToProcess newsLinks = min 3 (length newsLinks)"

text \<open>
  The loop over the candidates, from index \<open>i\<close> with \<open>processedCount\<close> successes so far;
  \<open>cap\<close> is the value of \<open>itemsToProcess\<close>.
\<close>

function processLoop ::
  "env \<Rightarrow> newsItem list \<Rightarrow> nat \<Rightarrow> nat \<Rightarrow> nat \<Rightarrow> world \<Rightarrow> nat \<times> world" where
  "processLoop E newsLinks cap i processedCount w =
     (if i < length newsLinks \<and> processedCount < cap
      then
        (case processNews E (newsLinks ! i) w of
           (None, w1) \<Rightarrow> processLoop E newsLinks cap (i + 1) processedCount w1
         | (Some r, w1) \<Rightarrow>
             if processedCount + 1 < cap
             then processLoop E newsLinks cap (i + 1) (processedCount + 1)
                    (emit (Delay 12000) w1)
             else processLoop E newsLinks cap (i + 1) (processedCount + 1) w1)
      else (processedCount, w))"
  by pat_completeness auto
termination
  by (relation "measure (\<lambda>(E, newsLinks, cap, i, c, w). length newsLinks - i)") auto

text \<open>The body of the \<open>try\<close> of \<open>fetchAndProcessNews\<close>.\<close>

definition run_try :: "env \<Rightarrow> world \<Rightarrow> (error + nat) \<times> world" where
  "run_try E w =
     (case fetchRSSFeeds E w of
        (Inl e, w1) \<Rightarrow> (Inl e, w1)
      | (Inr rssFeeds, w1) \<Rightarrow>
          (case aggregate E rssFeeds [] w1 of
             (newsLinks, w2) \<Rightarrow>
               (case processLoop E newsLinks (itemsToProcess newsLinks) 0 0
                       (emit (Log (ProcessingUpTo (itemsToProcess newsLinks)))
                          (emit (Log (FoundItems (length newsLinks))) w2)) of
                  (processedCount, w3) \<Rightarrow>
                    (Inr processedCount, emit (Log (Completed processedCount)) w3))))"

text \<open>
  \<open>fetchAndProcessNews\<close>: the pool is created before the \<open>try\<close>; the \<open>finally\<close> closes it,
  and a throw of the closing replaces the outcome of the \<open>try\<close>.
\<close>

definition fetchAndProcessNews :: "env \<Rightarrow> world \<Rightarrow> (error + nat) \<times> world" where
  "fetchAndProcessNews E w =
     (case createPool E of
        Some e \<Rightarrow> (Inl e, emit CreatePool w)
      | None \<Rightarrow>
          (case run_try E (emit CreatePool w) of
             (r, w1) \<Rightarrow>
               (case pool_end E (clock w1) of
                  Some e \<Rightarrow> (Inl e, emit PoolEnd w1)
                | None \<Rightarrow> (r, emit PoolEnd w1))))"

section \<open>Reading a trace\<close>

text \<open>The events that a step from the world \<open>w\<close> to the world \<open>w'\<close> has added.\<close>

definition new_events :: "world \<Rightarrow> world \<Rightarrow> event list" where
  "new_events w w' = drop (length (trace w)) (trace w')"

text \<open>The prompts sent to the summarization service, in order.\<close>

fun posted :: "event list \<Rightarrow> prompt list" where
  "posted [] = []"
| "posted (OpenRouterPost p # es) = p # posted es"
| "posted (e # es) = posted es"

text \<open>
  The outcome of the attempt number \<open>j\<close> of a summarization that starts in the world
  \<open>w\<close>: every attempt that is followed by another leaves two events, the call and the
  console line, so the attempt \<open>j\<close> is answered at the moment \<open>clock w + 2 * j\<close>.
\<close>

definition outcome :: "env \<Rightarrow> jsval \<Rightarrow> world \<Rightarrow> nat \<Rightarrow> error + jsval \<times> nat" where
  "outcome E articleText w j = attempt E (clock w + 2 * j) (prompt_for articleText j)"

text \<open>A nonempty summary of fewer than 50 words.\<close>

fun short_text :: "error + jsval \<times> nat \<Rightarrow> bool" where
  "short_text (Inl e) = False"
| "short_text (Inr (summary, n)) = (truthy summary \<and> n < 50)"

text \<open>What the summarizer returns after an attempt that is not followed by another.\<close>

fun returned :: "error + jsval \<times> nat \<Rightarrow> jsval" where
  "returned (Inl e) = Null"
| "returned (Inr (summary, n)) = summary"

text \<open>The calls to the two paid services.\<close>

fun is_paid :: "event \<Rightarrow> bool" where
  "is_paid (DiffbotGet u) = True"
| "is_paid (OpenRouterPost p) = True"
| "is_paid e = False"

text \<open>The waits of the loop.\<close>

fun is_delay :: "event \<Rightarrow> bool" where
  "is_delay (Delay d) = True"
| "is_delay e = False"

text \<open>The console line of a success of \<open>processNews\<close>.\<close>

fun is_inserted :: "event \<Rightarrow> bool" where
  "is_inserted (Log (NewsInserted t i c)) = True"
| "is_inserted e = False"

text \<open>The links looked up in \<open>blogs\<close>, one per call of \<open>processNews\<close>, in order.\<close>

fun attempted :: "event list \<Rightarrow> jsval list" where
  "attempted [] = []"
| "attempted (QueryBlogs u # es) = u # attempted es"
| "attempted (e # es) = attempted es"

text \<open>The numbers of successes and of delays in a list of events.\<close>

definition successes :: "event list \<Rightarrow> nat" where
  "successes es = length (filter is_inserted es)"

definition delays :: "event list \<Rightarrow> nat" where
  "delays es = length (filter is_delay es)"

text \<open>
  Every delay comes right after the console line of a success; \<open>b\<close> says whether the
  event before the list was one.
\<close>

fun delays_follow :: "bool \<Rightarrow> event list \<Rightarrow> bool" where
  "delays_follow b [] = True"
| "delays_follow b (e # es) = ((if is_delay e then b else True) \<and> delays_follow (is_inserted e) es)"

text \<open>
  A candidate passes the two checks of \<open>processNews\<close> in the world \<open>w\<close>: no stored post has
  its link, and its date is of today.
\<close>

definition survives :: "env \<Rightarrow> world \<Rightarrow> newsItem \<Rightarrow> bool" where
  "survives E w n =
     (filter (\<lambda>r. source_link r = link n) (blogs w) = [] \<and> isNewsFromToday E (pubDate n) w)"

section \<open>The shape of a parsed feed item\<close>

text \<open>
  What an XML feed parser hands over. An attribute object (the \<open>$\<close> of an element) holds
  strings: its \<open>type\<close> and its \<open>url\<close> are strings when present. An element is a text, or
  an object whose \<open>$\<close>, when present, is an attribute object and whose own \<open>type\<close>,
  \<open>url\<close> and \<^verbatim>\<open>@_url\<close> are strings when present. A field is absent, an element or a
  collection of elements. An item is an object whose four probed fields are fields in
  this sense.
\<close>

fun str_or_absent :: "jsval \<Rightarrow> bool" where
  "str_or_absent Undefined = True"
| "str_or_absent (Str s) = True"
| "str_or_absent v = False"

fun attrs_ok :: "jsval \<Rightarrow> bool" where
  "attrs_ok (Obj kvs) = (str_or_absent (lookup kvs ''type'') \<and> str_or_absent (lookup kvs ''url''))"
| "attrs_ok v = False"

fun elem_ok :: "jsval \<Rightarrow> bool" where
  "elem_ok (Str s) = True"
| "elem_ok (Obj kvs) =
     (str_or_absent (lookup kvs ''type'') \<and> str_or_absent (lookup kvs ''url'')
      \<and> str_or_absent (lookup kvs ''@_url'')
      \<and> (lookup kvs ''$'' = Undefined \<or> attrs_ok (lookup kvs ''$'')))"
| "elem_ok v = False"

fun field_ok :: "jsval \<Rightarrow> bool" where
  "field_ok Undefined = True"
| "field_ok (Arr es) = list_all elem_ok es"
| "field_ok v = elem_ok v"

fun media_ok :: "jsval \<Rightarrow> bool" where
  "media_ok Undefined = True"
| "media_ok (Obj kvs) = field_ok (lookup kvs ''content'')"
| "media_ok v = False"

fun item_ok :: "jsval \<Rightarrow> bool" where
  "item_ok (Obj kvs) =
     (field_ok (lookup kvs ''media:content'') \<and> media_ok (lookup kvs ''media'')
      \<and> field_ok (lookup kvs ''media:thumbnail'') \<and> field_ok (lookup kvs ''enclosure''))"
| "item_ok v = False"

section \<open>Example inputs\<close>

text \<open>A reply of the summarization service with the message content \<open>c\<close>.\<close>

definition reply_with :: "jsval \<Rightarrow> jsval" where
  "reply_with c = Obj [(''data'', Obj [(''choices'', Arr [Obj [(''message'', Obj [(''content'', c)])]])])]"

text \<open>Collaborators with a working database and unreachable services.\<close>

definition idle_env :: env where
  "idle_env = \<lparr>createPool = None, db_fault = (\<lambda>t. None), insertId = (\<lambda>t. Suc t),
     pool_end = (\<lambda>t. None), parseURL = (\<lambda>t u. Inl (Failure ''unreachable'')),
     now = (\<lambda>t. ''2024-05-01T00:00:00.000Z''), sameDay = (\<lambda>t d. True),
     diffbot = (\<lambda>t u. Inl (Failure ''unreachable'')),
     openrouter = (\<lambda>t p. Inl (Failure ''unreachable''))\<rparr>"

definition empty_world :: world where
  "empty_world = \<lparr>rss_feeds = [], blogs = [], blog_categories = [], trace = []\<rparr>"

text \<open>A summarization service that answers with white space only.\<close>

definition blank_reply_env :: env where
  "blank_reply_env = idle_env\<lparr>openrouter := (\<lambda>t p. Inr (reply_with (Str ''  '')))\<rparr>"

text \<open>A summarization service whose reply holds no choice.\<close>

definition no_choice_env :: env where
  "no_choice_env = idle_env\<lparr>openrouter := (\<lambda>t p. Inr (Obj [(''data'', Obj [(''choices'', Arr [])])]))\<rparr>"

text \<open>The media collection of C6: the SVG entry first, the JPEG entry second.\<close>

definition svg_first_item :: "string \<Rightarrow> string \<Rightarrow> jsval" where
  "svg_first_item u1 u2 =
     Arr [Obj [(''$'', Obj [(''type'', Str ''image/svg+xml''), (''url'', Str u1)])],
          Obj [(''$'', Obj [(''type'', Str ''image/jpeg''), (''url'', Str u2)])]]"

text \<open>Texts of 30 and of 60 words.\<close>

definition thirty_words :: string where
  "thirty_words = ''w w w w w w w w w w w w w w w w w w w w w w w w w w w w w w''"

definition sixty_words :: string where
  "sixty_words = ''w w w w w w w w w w w w w w w w w w w w w w w w w w w w w w w w w w w w w w w w w w w w w w w w w w w w w w w w w w w w''"

text \<open>A summarization service that gives 30 words three times, then 60 words.\<close>

definition improving_env :: env where
  "improving_env = idle_env\<lparr>openrouter := (\<lambda>t p.
     if t < 6 then Inr (reply_with (Str thirty_words)) else Inr (reply_with (Str sixty_words)))\<rparr>"

text \<open>A candidate, and a database that already holds its link.\<close>

definition fresh_item :: newsItem where
  "fresh_item = \<lparr>title = Str ''Title'', link = Str ''http://feed.example/1'',
     source = Str ''Feed'', image = Str [], categoryId = Num 7,
     pubDate = Str ''2024-05-01T08:00:00.000Z''\<rparr>"

definition stored_world :: world where
  "stored_world = empty_world\<lparr>blogs :=
     [\<lparr>blog_id = 1, blog_type = ''post'', blog_title = Str ''Title'', description = Str sixty_words,
       source_img = Str [], source_name = Str ''Feed'', source_link = Str ''http://feed.example/1'',
       created_by = 1, blog_status = 1, pub_date = Str ''2024-05-01T08:00:00.000Z''\<rparr>]\<rparr>"

text \<open>A reply of the extraction service with one article.\<close>

definition article_reply :: jsval where
  "article_reply = Obj [(''data'', Obj [(''objects'', Arr [Obj [(''text'', Str ''body'')]])])]"

text \<open>Both services answer: an article, and a summary of 60 words.\<close>

definition working_env :: env where
  "working_env = idle_env\<lparr>diffbot := (\<lambda>t u. Inr article_reply),
     openrouter := (\<lambda>t p. Inr (reply_with (Str sixty_words)))\<rparr>"

text \<open>The database throws at the moment 5, and only then.\<close>

definition category_fault_env :: env where
  "category_fault_env = working_env\<lparr>db_fault := (\<lambda>t. if t = 5 then Some (Failure ''link failed'') else None)\<rparr>"

text \<open>Candidates by link and date; the date \<open>old\<close> is not of today.\<close>

definition numbered :: "string \<Rightarrow> string \<Rightarrow> newsItem" where
  "numbered s d = fresh_item\<lparr>link := Str s, pubDate := Str d\<rparr>"

definition picky_env :: env where
  "picky_env = working_env\<lparr>sameDay := (\<lambda>t d. d \<noteq> Str ''old'')\<rparr>"

definition five_items :: "newsItem list" where
  "five_items = [numbered ''a'' ''new'', numbered ''b'' ''old'', numbered ''c'' ''new'',
     numbered ''d'' ''new'', numbered ''e'' ''new'']"

definition two_items :: "newsItem list" where
  "two_items = [numbered ''a'' ''new'', numbered ''b'' ''old'']"

text \<open>One active feed with two items, the second stale.\<close>

definition feed_item :: "string \<Rightarrow> string \<Rightarrow> jsval" where
  "feed_item s d = Obj [(''title'', Str ''Title''), (''link'', Str s), (''pubDate'', Str d)]"

definition feed_env :: env where
  "feed_env = picky_env\<lparr>parseURL := (\<lambda>t u.
     Inr (Obj [(''title'', Str ''Feed''),
               (''items'', Arr [feed_item ''a'' ''new'', feed_item ''b'' ''old''])]))\<rparr>"

definition feed_world :: world where
  "feed_world = empty_world\<lparr>rss_feeds :=
     [\<lparr>rss_url = ''http://feed.example/rss'', category_id = Num 7, feed_status = 1\<rparr>]\<rparr>"

text \<open>The closing of the pool throws.\<close>

definition closing_fault_env :: env where
  "closing_fault_env = idle_env\<lparr>pool_end := (\<lambda>t. Some (Failure ''closing''))\<rparr>"

text \<open>
  A summarization service that never gives more than 30 words, and a database that
  throws at the moment 4, and only then.
\<close>

definition short_env :: env where
  "short_env = working_env\<lparr>openrouter := (\<lambda>t p. Inr (reply_with (Str thirty_words)))\<rparr>"

definition insert_fault_env :: env where
  "insert_fault_env = working_env\<lparr>db_fault := (\<lambda>t. if t = 4 then Some (Failure ''insert failed'') else None)\<rparr>"

section \<open>Properties\<close>

declare summarizeContent.simps [simp del]
declare processLoop.simps [simp del]

subsection \<open>Events and traces\<close>

lemma clock_emit: "clock (emit e w) = Suc (clock w)"
  by (simp add: clock_def emit_def)

lemma trace_emit: "trace (emit e w) = trace w @ [e]"
  by (simp add: emit_def)

lemma new_events_append: "trace w' = trace w @ es \<Longrightarrow> new_events w w' = es"
  by (simp add: new_events_def)

lemma posted_append: "posted (xs @ ys) = posted xs @ posted ys"
  by (induction xs rule: posted.induct) auto

lemma attempted_append: "attempted (xs @ ys) = attempted xs @ attempted ys"
  by (induction xs rule: attempted.induct) auto

lemma successes_append: "successes (xs @ ys) = successes xs + successes ys"
  by (simp add: successes_def)

lemma delays_append: "delays (xs @ ys) = delays xs + delays ys"
  by (simp add: delays_def)

subsection \<open>Media extraction\<close>

text \<open>
  C6 (as amended). For a feed item whose media-content field is the collection of an entry
  typed \<open>image/svg+xml\<close>, listed first, and an entry typed \<open>image/jpeg\<close>, the extractor
  returns the URL of the first-listed entry, the \<open>image/svg+xml\<close> one, when that URL is not
  empty: both types have the prefix \<open>image/\<close>, and the search takes the first entry that
  has it.
\<close>

theorem C6_svg_listed_first_is_returned:
  assumes "getprop item ''media:content'' = Inr (svg_first_item u1 u2)"
      and "u1 \<noteq> []"
  shows "extractMediaUrl item = Inr (Str u1)"
  using assms
  by (simp add: extractMediaUrl_def method1_def method2_def method3_def method4_def
      andThen_def and_prop_def lookup_def is_image_media_def svg_first_item_def)

text \<open>C6, at an item with a title and the two entries.\<close>

theorem C6_svg_listed_first_is_returned_witness:
  "extractMediaUrl (Obj [(''title'', Str ''t''), (''media:content'', svg_first_item ''a.svg'' ''b.jpg'')])
     = Inr (Str ''a.svg'')"
  using C6_svg_listed_first_is_returned
    [of "Obj [(''title'', Str ''t''), (''media:content'', svg_first_item ''a.svg'' ''b.jpg'')]"
        "''a.svg''" "''b.jpg''"]
  by (simp add: lookup_def)

text \<open>
  C6 as stated fails: with the \<open>image/svg+xml\<close> entry listed first, the URL of the
  \<open>image/jpeg\<close> entry is not what the extractor returns.
\<close>

theorem C6_jpeg_not_returned_counterexample:
  "extractMediaUrl (Obj [(''media:content'', svg_first_item ''a.svg'' ''b.jpg'')]) = Inr (Str ''a.svg'')
   \<and> extractMediaUrl (Obj [(''media:content'', svg_first_item ''a.svg'' ''b.jpg'')]) \<noteq> Inr (Str ''b.jpg'')"
  by (simp add: extractMediaUrl_def method1_def method2_def method3_def method4_def
      andThen_def and_prop_def lookup_def is_image_media_def svg_first_item_def)

lemma attrs_url: "attrs_ok a \<Longrightarrow> \<exists>v. getprop a ''url'' = Inr v \<and> str_or_absent v"
  by (cases a) simp_all

lemma str_or_absent_cases: "str_or_absent v \<Longrightarrow> v = Undefined \<or> (\<exists>s. v = Str s)"
  by (cases v) simp_all

lemma elem_and_dollar:
  "elem_ok e \<Longrightarrow> \<exists>a. and_prop e ''$'' = Inr a \<and> (truthy a \<longrightarrow> attrs_ok a)"
  by (cases e) (auto simp: and_prop_def)

lemma attrs_type_test:
  "attrs_ok a \<Longrightarrow> \<exists>b. andThen (getprop a ''type'') (\<lambda>t. if \<not> truthy t then Inr False else startsWith t ''image/'') = Inr b"
  by (cases a; simp add: andThen_def) (auto dest!: str_or_absent_cases)

lemma elem_is_image_media: "elem_ok e \<Longrightarrow> \<exists>b. is_image_media e = Inr b"
proof (cases e)
  case (Obj kvs)
  assume "elem_ok e"
  with Obj have d: "lookup kvs ''$'' = Undefined \<or> attrs_ok (lookup kvs ''$'')" by simp
  then show ?thesis
  proof
    assume "lookup kvs ''$'' = Undefined"
    with Obj show ?thesis by (auto simp: is_image_media_def andThen_def)
  next
    assume a: "attrs_ok (lookup kvs ''$'')"
    then obtain avs where avs: "lookup kvs ''$'' = Obj avs" by (cases "lookup kvs ''$''") simp_all
    from attrs_type_test[OF a] obtain b where
      "andThen (getprop (lookup kvs ''$'') ''type'') (\<lambda>t. if \<not> truthy t then Inr False else startsWith t ''image/'') = Inr b"
      by blast
    with Obj avs show ?thesis by (auto simp: is_image_media_def andThen_def)
  qed
qed (auto simp: is_image_media_def andThen_def)

lemma elem_is_image_enclosure: "elem_ok e \<Longrightarrow> \<exists>b. is_image_enclosure e = Inr b"
proof (cases e)
  case (Obj kvs)
  assume "elem_ok e"
  with Obj have d: "lookup kvs ''$'' = Undefined \<or> attrs_ok (lookup kvs ''$'')" by simp
  then show ?thesis
  proof
    assume "lookup kvs ''$'' = Undefined"
    with Obj show ?thesis by (auto simp: is_image_enclosure_def andThen_def)
  next
    assume a: "attrs_ok (lookup kvs ''$'')"
    then obtain avs where avs: "lookup kvs ''$'' = Obj avs" by (cases "lookup kvs ''$''") simp_all
    from attrs_type_test[OF a] obtain b where
      "andThen (getprop (lookup kvs ''$'') ''type'') (\<lambda>t. if \<not> truthy t then Inr False else startsWith t ''image/'') = Inr b"
      by blast
    with Obj avs show ?thesis by (auto simp: is_image_enclosure_def andThen_def)
  qed
qed (auto simp: is_image_enclosure_def andThen_def)

lemma find_js_total:
  assumes "\<And>e. e \<in> set es \<Longrightarrow> \<exists>b. p e = Inr b"
  shows "\<exists>v. find_js p es = Inr v \<and> (v = Undefined \<or> v \<in> set es)"
  using assms
proof (induction es)
  case Nil
  then show ?case by simp
next
  case (Cons e es)
  from Cons.prems[of e] obtain b where b: "p e = Inr b" by auto
  from Cons.IH Cons.prems obtain v where "find_js p es = Inr v" "v = Undefined \<or> v \<in> set es"
    by auto
  with b show ?case by auto
qed

lemma elem_flat_url: "elem_ok e \<Longrightarrow> \<exists>s. flat_url e = Inr (Str s)"
  by (cases e) (auto simp: flat_url_def andThen_def dest!: str_or_absent_cases)

lemma index0_ok: "list_all elem_ok es \<Longrightarrow> index0 es = Undefined \<or> elem_ok (index0 es)"
  by (cases es) simp_all

lemma and_prop_undefined: "and_prop Undefined k = Inr Undefined"
  by (simp add: and_prop_def)

lemma dollar_url:
  assumes "e = Undefined \<or> elem_ok e"
  shows "\<exists>a. and_prop e ''$'' = Inr a
    \<and> (truthy a \<longrightarrow> (\<exists>v. getprop a ''url'' = Inr v \<and> str_or_absent v))"
  using assms
proof
  assume "e = Undefined"
  then show ?thesis by (simp add: and_prop_undefined)
next
  assume "elem_ok e"
  from elem_and_dollar[OF this] show ?thesis by (auto dest: attrs_url)
qed

lemma method1_shape:
  assumes "field_ok (lookup kvs ''media:content'')" and "str_or_absent u"
  shows "\<exists>v. method1 (Obj kvs) u = Inr v \<and> str_or_absent v"
proof (cases "lookup kvs ''media:content''")
  case (Arr es)
  with assms have all: "list_all elem_ok es" by simp
  then have "\<And>e. e \<in> set es \<Longrightarrow> \<exists>b. is_image_media e = Inr b"
    by (auto simp: list_all_iff intro: elem_is_image_media)
  from find_js_total[of es is_image_media, OF this] all
  obtain v where v: "find_js is_image_media es = Inr v" "v = Undefined \<or> elem_ok v"
    by (auto simp: list_all_iff)
  from dollar_url[OF v(2)] obtain a where a: "and_prop v ''$'' = Inr a"
    "truthy a \<longrightarrow> (\<exists>v. getprop a ''url'' = Inr v \<and> str_or_absent v)" by blast
  from dollar_url[OF index0_ok[OF all]] obtain b where b: "and_prop (index0 es) ''$'' = Inr b"
    "truthy b \<longrightarrow> (\<exists>v. getprop b ''url'' = Inr v \<and> str_or_absent v)" by blast
  from Arr v a b assms(2) show ?thesis
    by (auto simp: method1_def andThen_def)
next
  case (Obj mvs)
  with assms have e: "elem_ok (Obj mvs)" by simp
  from dollar_url[of "Obj mvs"] e obtain a where a: "and_prop (Obj mvs) ''$'' = Inr a"
    "truthy a \<longrightarrow> (\<exists>v. getprop a ''url'' = Inr v \<and> str_or_absent v)" by blast
  from elem_flat_url[OF e] obtain s where "flat_url (Obj mvs) = Inr (Str s)" by blast
  with Obj a show ?thesis
    by (auto simp: method1_def andThen_def)
qed (use assms in \<open>auto simp: method1_def andThen_def and_prop_def\<close>)

lemma method2_shape:
  assumes "media_ok (lookup kvs ''media'')" and "str_or_absent u"
  shows "\<exists>v. method2 (Obj kvs) u = Inr v \<and> str_or_absent v"
proof (cases "truthy u")
  case True
  with assms(2) show ?thesis by (simp add: method2_def)
next
  case False
  show ?thesis
  proof (cases "lookup kvs ''media''")
    case (Obj m)
    with assms have f: "field_ok (lookup m ''content'')" by simp
    show ?thesis
    proof (cases "lookup m ''content''")
      case (Arr es)
      with f have all: "list_all elem_ok es" by simp
      then have "\<And>e. e \<in> set es \<Longrightarrow> \<exists>b. is_image_media e = Inr b"
        by (auto simp: list_all_iff intro: elem_is_image_media)
      from find_js_total[of es is_image_media, OF this] all
      obtain v where v: "find_js is_image_media es = Inr v" "v = Undefined \<or> elem_ok v"
        by (auto simp: list_all_iff)
      let ?m = "if truthy v then v else index0 es"
      have "?m = Undefined \<or> elem_ok ?m"
        using v(2) index0_ok[OF all] by auto
      from dollar_url[OF this] obtain a where a: "and_prop ?m ''$'' = Inr a"
        "truthy a \<longrightarrow> (\<exists>v. getprop a ''url'' = Inr v \<and> str_or_absent v)" by blast
      from False Obj Arr v(1) a show ?thesis
        by (auto simp: method2_def andThen_def and_prop_def[of "Obj m"] Let_def)
    next
      case (Obj mvs)
      with f have e: "elem_ok (Obj mvs)" by simp
      from dollar_url[of "Obj mvs"] e obtain a where a: "and_prop (Obj mvs) ''$'' = Inr a"
        "truthy a \<longrightarrow> (\<exists>v. getprop a ''url'' = Inr v \<and> str_or_absent v)" by blast
      from False \<open>lookup kvs ''media'' = Obj m\<close> Obj a assms(2) show ?thesis
        by (auto simp: method2_def andThen_def and_prop_def[of "Obj m"])
    qed (use False Obj f assms(2) in \<open>auto simp: method2_def andThen_def and_prop_def\<close>)
  qed (use False assms in \<open>auto simp: method2_def andThen_def and_prop_def\<close>)
qed

lemma method3_shape:
  assumes "field_ok (lookup kvs ''media:thumbnail'')" and "str_or_absent u"
  shows "\<exists>v. method3 (Obj kvs) u = Inr v \<and> str_or_absent v"
proof (cases "truthy u")
  case True
  with assms(2) show ?thesis by (simp add: method3_def)
next
  case False
  show ?thesis
  proof (cases "lookup kvs ''media:thumbnail''")
    case (Obj mvs)
    with assms have e: "elem_ok (Obj mvs)" by simp
    from dollar_url[of "Obj mvs"] e obtain a where a: "and_prop (Obj mvs) ''$'' = Inr a"
      "truthy a \<longrightarrow> (\<exists>v. getprop a ''url'' = Inr v \<and> str_or_absent v)" by blast
    from elem_flat_url[OF e] obtain s where "flat_url (Obj mvs) = Inr (Str s)" by blast
    with False Obj a show ?thesis
      by (auto simp: method3_def andThen_def)
  qed (use False assms in \<open>auto simp: method3_def andThen_def and_prop_def flat_url_def\<close>)
qed

lemma enclosure_image_url:
  assumes "elem_ok e" "is_image_enclosure e = Inr True"
  shows "\<exists>v. andThen (getprop e ''$'') (\<lambda>a. getprop a ''url'') = Inr v \<and> str_or_absent v"
proof (cases e)
  case (Obj kvs)
  with assms(1) have "lookup kvs ''$'' = Undefined \<or> attrs_ok (lookup kvs ''$'')" by simp
  then show ?thesis
  proof
    assume "lookup kvs ''$'' = Undefined"
    with assms(2) Obj show ?thesis by (simp add: is_image_enclosure_def andThen_def)
  next
    assume "attrs_ok (lookup kvs ''$'')"
    from attrs_url[OF this] Obj show ?thesis by (simp add: andThen_def)
  qed
qed (use assms in \<open>auto simp: is_image_enclosure_def andThen_def\<close>)

lemma method4_shape:
  assumes "field_ok (lookup kvs ''enclosure'')" and "str_or_absent u"
  shows "\<exists>v. method4 (Obj kvs) u = Inr v \<and> str_or_absent v"
proof (cases "truthy u")
  case True
  with assms(2) show ?thesis by (simp add: method4_def)
next
  case False
  show ?thesis
  proof (cases "lookup kvs ''enclosure''")
    case (Arr es)
    with assms have all: "list_all elem_ok es" by simp
    then have "\<And>e. e \<in> set es \<Longrightarrow> \<exists>b. is_image_enclosure e = Inr b"
      by (auto simp: list_all_iff intro: elem_is_image_enclosure)
    from find_js_total[of es is_image_enclosure, OF this] all
    obtain v where v: "find_js is_image_enclosure es = Inr v" "v = Undefined \<or> elem_ok v"
      by (auto simp: list_all_iff)
    from dollar_url[OF v(2)] obtain a where a: "and_prop v ''$'' = Inr a"
      "truthy a \<longrightarrow> (\<exists>v. getprop a ''url'' = Inr v \<and> str_or_absent v)" by blast
    from False Arr v(1) a assms(2) show ?thesis
      by (auto simp: method4_def andThen_def)
  next
    case (Obj mvs)
    with assms have e: "elem_ok (Obj mvs)" by simp
    from elem_is_image_enclosure[OF e] obtain img where img: "is_image_enclosure (Obj mvs) = Inr img"
      by blast
    show ?thesis
    proof (cases img)
      case True
      from enclosure_image_url[OF e] img True obtain v where
        "andThen (getprop (Obj mvs) ''$'') (\<lambda>a. getprop a ''url'') = Inr v" "str_or_absent v" by auto
      with False Obj img True show ?thesis
        by (simp add: method4_def andThen_def)
    next
      case no: False
      from e have "str_or_absent (lookup mvs ''type'')" "str_or_absent (lookup mvs ''url'')"
        by simp_all
      then have "lookup mvs ''type'' = Undefined \<or> (\<exists>t. lookup mvs ''type'' = Str t)"
        "lookup mvs ''url'' = Undefined \<or> (\<exists>u. lookup mvs ''url'' = Str u)"
        by (auto dest: str_or_absent_cases)
      with False Obj img no assms(2) show ?thesis
        by (auto simp: method4_def andThen_def)
    qed
  next
    case (Str t)
    with False assms(2) show ?thesis
      by (auto simp: method4_def andThen_def is_image_enclosure_def)
  qed (use False assms in \<open>auto simp: method4_def andThen_def\<close>)
qed

text \<open>
  On every item of the shape a feed parser produces the extractor does not throw, and
  what it returns is a string or \<open>undefined\<close>; it is the empty string when none of
  \<open>media:content\<close>, \<open>media.content\<close>, \<open>media:thumbnail\<close> and \<open>enclosure\<close> is present.
\<close>

lemma parser_shaped_never_throws:
  assumes "item_ok item"
  shows "(\<exists>v. extractMediaUrl item = Inr v \<and> str_or_absent v)
    \<and> (\<not> truthy (opt_prop item ''media:content'')
        \<and> \<not> truthy (opt_prop (opt_prop item ''media'') ''content'')
        \<and> \<not> truthy (opt_prop item ''media:thumbnail'') \<and> \<not> truthy (opt_prop item ''enclosure'')
        \<longrightarrow> extractMediaUrl item = Inr (Str []))"
proof (cases item)
  case (Obj kvs)
  with assms have ok: "field_ok (lookup kvs ''media:content'')" "media_ok (lookup kvs ''media'')"
    "field_ok (lookup kvs ''media:thumbnail'')" "field_ok (lookup kvs ''enclosure'')"
    by simp_all
  have s0: "str_or_absent (Str [])" by simp
  from method1_shape[OF ok(1) s0] obtain u1 where u1: "method1 (Obj kvs) (Str []) = Inr u1"
    "str_or_absent u1" by blast
  from method2_shape[OF ok(2) u1(2)] obtain u2 where u2: "method2 (Obj kvs) u1 = Inr u2"
    "str_or_absent u2" by blast
  from method3_shape[OF ok(3) u2(2)] obtain u3 where u3: "method3 (Obj kvs) u2 = Inr u3"
    "str_or_absent u3" by blast
  from method4_shape[OF ok(4) u3(2)] obtain u4 where u4: "method4 (Obj kvs) u3 = Inr u4"
    "str_or_absent u4" by blast
  have a: "\<exists>v. extractMediaUrl item = Inr v \<and> str_or_absent v"
    using Obj u1 u2 u3 u4 by (simp add: extractMediaUrl_def andThen_def)
  have b: "extractMediaUrl item = Inr (Str [])"
    if "\<not> truthy (lookup kvs ''media:content'')"
      "\<not> truthy (opt_prop (lookup kvs ''media'') ''content'')"
      "\<not> truthy (lookup kvs ''media:thumbnail'')" "\<not> truthy (lookup kvs ''enclosure'')"
  proof -
    have m2: "method2 (Obj kvs) (Str []) = Inr (Str [])"
      using that(2) ok(2)
      by (cases "lookup kvs ''media''") (simp_all add: method2_def andThen_def and_prop_def)
    show ?thesis
      using that(1,3,4) Obj m2
      by (simp add: extractMediaUrl_def method1_def method3_def method4_def andThen_def)
  qed
  from a b Obj show ?thesis by simp
qed (use assms in simp_all)

text \<open>
  C8. The claim describes what the extractor is written to do, and the code misses it at
  one place: a media-content element whose attributes hold no \<open>url\<close> is an item that a
  feed parser produces, and for it the extractor returns \<open>undefined\<close>, which is no string.
  The branches that read \<open>$.url\<close> lack the fallback to the empty string that the branch
  for flattened attributes has: the same attributes given without \<open>$\<close> yield the empty
  string.
\<close>

theorem C8_missing_url_gives_undefined:
  "item_ok (Obj [(''media:content'', Obj [(''$'', Obj [(''medium'', Str ''image'')])])])
   \<and> extractMediaUrl (Obj [(''media:content'', Obj [(''$'', Obj [(''medium'', Str ''image'')])])])
       = Inr Undefined
   \<and> extractMediaUrl (Obj [(''media:content'', Obj [(''medium'', Str ''image'')])])
       = Inr (Str [])"
  by (simp add: extractMediaUrl_def method1_def method2_def method3_def method4_def
      andThen_def and_prop_def lookup_def flat_url_def)

subsection \<open>The summarizer\<close>

lemma prompt_for_Suc: "prompt_for a (Suc k) = Escalated a"
  by (simp add: prompt_for_def)

lemma summarize_steps:
  "k \<le> 4 \<Longrightarrow>
   \<exists>m es. k + m \<le> 4
     \<and> (\<forall>j<m. short_text (attempt E (clock w + 2 * j) (prompt_for a (k + j))))
     \<and> (k + m < 4 \<longrightarrow> \<not> short_text (attempt E (clock w + 2 * m) (prompt_for a (k + m))))
     \<and> fst (summarizeContent E a k w) = returned (attempt E (clock w + 2 * m) (prompt_for a (k + m)))
     \<and> trace (snd (summarizeContent E a k w)) = trace w @ es
     \<and> posted es = prompt_for a k # replicate m (Escalated a)"
proof (induction E a k w rule: summarizeContent.induct)
  case (1 E a k w)
  let ?p = "prompt_for a k"
  let ?w1 = "emit (OpenRouterPost ?p) w"
  show ?case
  proof (cases "short_text (attempt E (clock w) ?p) \<and> k < 4")
    case False
    then have "fst (summarizeContent E a k w) = returned (attempt E (clock w) ?p)
        \<and> (\<exists>es. trace (snd (summarizeContent E a k w)) = trace w @ es \<and> posted es = [?p])"
      by (subst (1 2) summarizeContent.simps)
         (auto simp: trace_emit posted_append split: sum.splits)
    with False "1.prems" show ?thesis
      by (intro exI[of _ 0]) auto
  next
    case True
    then obtain s n where att: "attempt E (clock w) ?p = Inr (s, n)"
      and sh: "truthy s" "n < 50" and k4: "k < 4"
      by (cases "attempt E (clock w) ?p") auto
    let ?w2 = "emit (Log (SummaryTooShort n)) ?w1"
    have step: "summarizeContent E a k w = summarizeContent E a (k + 1) ?w2"
      using att sh k4 by (subst summarizeContent.simps) simp
    have "k + 1 \<le> 4" using k4 by simp
    from "1.IH"[OF att refl _ this] sh k4
    obtain m es where m: "k + 1 + m \<le> 4"
      and all: "\<forall>j<m. short_text (attempt E (clock ?w2 + 2 * j) (prompt_for a (k + 1 + j)))"
      and stop: "k + 1 + m < 4 \<longrightarrow> \<not> short_text (attempt E (clock ?w2 + 2 * m) (prompt_for a (k + 1 + m)))"
      and res: "fst (summarizeContent E a (k + 1) ?w2) = returned (attempt E (clock ?w2 + 2 * m) (prompt_for a (k + 1 + m)))"
      and tr: "trace (snd (summarizeContent E a (k + 1) ?w2)) = trace ?w2 @ es"
      and po: "posted es = prompt_for a (k + 1) # replicate m (Escalated a)"
      by auto
    have c2: "clock ?w2 = clock w + 2" by (simp add: clock_emit)
    have all': "\<forall>j<Suc m. short_text (attempt E (clock w + 2 * j) (prompt_for a (k + j)))"
    proof (intro allI impI)
      fix j assume "j < Suc m"
      show "short_text (attempt E (clock w + 2 * j) (prompt_for a (k + j)))"
      proof (cases j)
        case 0
        then show ?thesis using att sh by simp
      next
        case (Suc j')
        with \<open>j < Suc m\<close> all have "short_text (attempt E (clock ?w2 + 2 * j') (prompt_for a (k + 1 + j')))"
          by simp
        then show ?thesis using Suc c2 by (simp add: add.commute add.left_commute)
      qed
    qed
    have tr': "trace (snd (summarizeContent E a k w)) = trace w @ (OpenRouterPost ?p # Log (SummaryTooShort n) # es)"
      using tr step by (simp add: trace_emit)
    have po': "posted (OpenRouterPost ?p # Log (SummaryTooShort n) # es) = ?p # replicate (Suc m) (Escalated a)"
      using po by (simp add: prompt_for_def)
    show ?thesis
      apply (intro exI[of _ "Suc m"] exI[of _ "OpenRouterPost ?p # Log (SummaryTooShort n) # es"])
      using m all' stop res step c2 tr' po'
      by (simp add: add.commute add.left_commute)
  qed
qed


text \<open>
  C1 (as amended). A summarization makes \<open>m + 1\<close> calls to the service with \<open>m \<le> 4\<close>, so
  at most 5: the first with the primary prompt, the others with the escalated one. Each
  of the attempts before the last gave a nonempty text of fewer than 50 words, and such a
  text is retried as long as fewer than 4 retries have occurred. The summarizer returns
  what the last attempt gave: \<open>null\<close> when the call or the reading of the reply threw, and
  otherwise its text, which has at least 50 words (the first such text), or is empty (a
  reply without usable content, returned at once), or is the text obtained after 4
  retries (possibly still short).
\<close>

theorem C1_summarizer_attempts:
  "\<exists>m\<le>4.
     (\<forall>j<m. short_text (outcome E a w j))
   \<and> (m < 4 \<longrightarrow> \<not> short_text (outcome E a w m))
   \<and> fst (summarizeContent E a 0 w) = returned (outcome E a w m)
   \<and> ((\<exists>e. outcome E a w m = Inl e \<and> fst (summarizeContent E a 0 w) = Null)
      \<or> (\<exists>s k. outcome E a w m = Inr (s, k) \<and> fst (summarizeContent E a 0 w) = s
            \<and> (50 \<le> k \<or> \<not> truthy s \<or> m = 4)))
   \<and> posted (new_events w (snd (summarizeContent E a 0 w))) = Primary a # replicate m (Escalated a)
   \<and> length (posted (new_events w (snd (summarizeContent E a 0 w)))) \<le> 5"
proof -
  from summarize_steps[of 0 E w a]
  obtain m es where m: "m \<le> 4"
    and a: "\<forall>j<m. short_text (attempt E (clock w + 2 * j) (prompt_for a j))"
    and b: "m < 4 \<longrightarrow> \<not> short_text (attempt E (clock w + 2 * m) (prompt_for a m))"
    and c: "fst (summarizeContent E a 0 w) = returned (attempt E (clock w + 2 * m) (prompt_for a m))"
    and d: "trace (snd (summarizeContent E a 0 w)) = trace w @ es"
    and e: "posted es = prompt_for a 0 # replicate m (Escalated a)"
    by auto
  have ne: "new_events w (snd (summarizeContent E a 0 w)) = es"
    using d by (rule new_events_append)
  have f: "(\<exists>e. outcome E a w m = Inl e \<and> fst (summarizeContent E a 0 w) = Null)
      \<or> (\<exists>s k. outcome E a w m = Inr (s, k) \<and> fst (summarizeContent E a 0 w) = s
            \<and> (50 \<le> k \<or> \<not> truthy s \<or> m = 4))"
  proof (cases "outcome E a w m")
    case (Inl x)
    with c show ?thesis by (simp add: outcome_def)
  next
    case (Inr sk)
    obtain s k where sk: "sk = (s, k)" by (cases sk)
    from Inr sk b c m show ?thesis by (auto simp: outcome_def)
  qed
  have g: "(\<forall>j<m. short_text (outcome E a w j)) \<and> (m < 4 \<longrightarrow> \<not> short_text (outcome E a w m))
      \<and> fst (summarizeContent E a 0 w) = returned (outcome E a w m)"
    using a b c by (simp add: outcome_def)
  have h: "posted (new_events w (snd (summarizeContent E a 0 w))) = Primary a # replicate m (Escalated a)
      \<and> length (posted (new_events w (snd (summarizeContent E a 0 w)))) \<le> 5"
    using m e ne by (simp add: prompt_for_def)
  from m f g h show ?thesis by (intro exI[of _ m]) blast
qed

lemma thirty_count: "wordCount (Str thirty_words) = Inr 30"
  by (simp add: wordCount_def thirty_words_def split_ws_def is_space_def)

lemma sixty_count: "wordCount (Str sixty_words) = Inr 60"
  by (simp add: wordCount_def sixty_words_def split_ws_def is_space_def)

lemma thirty_reply: "summary_of (reply_with (Str thirty_words)) = Inr (Str thirty_words)"
  by (simp add: summary_of_def reply_with_def andThen_def lookup_def thirty_words_def trim_def
      is_space_def)

lemma sixty_reply: "summary_of (reply_with (Str sixty_words)) = Inr (Str sixty_words)"
  by (simp add: summary_of_def reply_with_def andThen_def lookup_def sixty_words_def trim_def
      is_space_def)

lemma thirty_truthy: "thirty_words \<noteq> []"
  by (simp add: thirty_words_def)

lemma sixty_truthy: "sixty_words \<noteq> []"
  by (simp add: sixty_words_def)

text \<open>
  C1, at a service that gives 30 words on the first three attempts and 60 words on the
  fourth: the 60 words are returned after exactly four calls.
\<close>

theorem C1_summarizer_attempts_witness:
  "fst (summarizeContent improving_env (Str ''article'') 0 empty_world) = Str sixty_words
   \<and> posted (new_events empty_world (snd (summarizeContent improving_env (Str ''article'') 0 empty_world)))
       = [Primary (Str ''article''), Escalated (Str ''article''), Escalated (Str ''article''),
          Escalated (Str ''article'')]"
proof -
  let ?o = "outcome improving_env (Str ''article'') empty_world"
  have short: "short_text (?o j)" if "j < 3" for j
    using that
    by (simp add: outcome_def attempt_def improving_env_def idle_env_def andThen_def
        thirty_reply thirty_count thirty_truthy clock_def empty_world_def)
  have o3: "?o 3 = Inr (Str sixty_words, 60)"
    by (simp add: outcome_def attempt_def improving_env_def idle_env_def andThen_def
        sixty_reply sixty_count clock_def empty_world_def)
  from C1_summarizer_attempts[of improving_env "Str ''article''" empty_world]
  obtain m where m: "m \<le> 4" and a: "\<forall>j<m. short_text (?o j)"
    and b: "m < 4 \<longrightarrow> \<not> short_text (?o m)"
    and c: "fst (summarizeContent improving_env (Str ''article'') 0 empty_world) = returned (?o m)"
    and d: "posted (new_events empty_world (snd (summarizeContent improving_env (Str ''article'') 0 empty_world)))
              = Primary (Str ''article'') # replicate m (Escalated (Str ''article''))"
    by blast
  have "m = 3"
  proof (rule ccontr)
    assume "m \<noteq> 3"
    with m have "m < 3 \<or> m = 4" by arith
    then show False
    proof
      assume "m < 3"
      with short b show False by simp
    next
      assume "m = 4"
      with a have "short_text (?o 3)" by simp
      with o3 show False by simp
    qed
  qed
  with c d o3 show ?thesis by (simp add: numeral_3_eq_3)
qed


text \<open>
  C1 as stated fails: its three outcomes leave out a fourth. A reply without error whose
  content is white space gives the empty string, and a reply with no choice gives
  \<open>undefined\<close>; either is returned after the one call, with no retry. It is not \<open>null\<close>, it
  is no text of 50 words, and the 4 retries are not exhausted.
\<close>

theorem C1_empty_reply_is_a_fourth_outcome_counterexample:
  "summarizeContent blank_reply_env (Str ''article'') 0 empty_world
     = (Str [], emit (OpenRouterPost (Primary (Str ''article''))) empty_world)
   \<and> summarizeContent no_choice_env (Str ''article'') 0 empty_world
     = (Undefined, emit (OpenRouterPost (Primary (Str ''article''))) empty_world)
   \<and> wordCount (Str []) = Inr 0 \<and> wordCount Undefined = Inr 0"
proof -
  have a: "attempt blank_reply_env t p = Inr (Str [], 0)" for t p
    by (simp add: attempt_def blank_reply_env_def idle_env_def summary_of_def reply_with_def
        andThen_def lookup_def trim_def is_space_def wordCount_def)
  have b: "attempt no_choice_env t p = Inr (Undefined, 0)" for t p
    by (simp add: attempt_def no_choice_env_def idle_env_def summary_of_def
        andThen_def lookup_def wordCount_def)
  have "summarizeContent blank_reply_env (Str ''article'') 0 empty_world
     = (Str [], emit (OpenRouterPost (Primary (Str ''article''))) empty_world)"
    by (subst summarizeContent.simps) (simp add: a prompt_for_def)
  moreover have "summarizeContent no_choice_env (Str ''article'') 0 empty_world
     = (Undefined, emit (OpenRouterPost (Primary (Str ''article''))) empty_world)"
    by (subst summarizeContent.simps) (simp add: b prompt_for_def)
  ultimately show ?thesis by (simp add: wordCount_def)
qed

text \<open>
  C10. When the service answers without error and the reply has no usable content (the
  summary is \<open>undefined\<close> or the empty string), the summarizer returns that empty result
  after this one call, whatever the retry count. A second call is made only after a
  nonempty summary of fewer than 50 words.
\<close>

theorem C10_empty_reply_no_retry:
  assumes "openrouter E (clock w) (prompt_for a k) = Inr response"
      and "summary_of response = Inr s"
  shows "(\<not> truthy s \<longrightarrow>
            summarizeContent E a k w = (s, emit (OpenRouterPost (prompt_for a k)) w))
       \<and> (1 < length (posted (new_events w (snd (summarizeContent E a k w)))) \<longrightarrow>
            truthy s \<and> (\<exists>n. wordCount s = Inr n \<and> n < 50))"
proof (cases "wordCount s")
  case (Inl e)
  with assms show ?thesis
    by (subst (1 2) summarizeContent.simps)
       (auto simp: attempt_def andThen_def new_events_def emit_def wordCount_def split: if_splits)
next
  case (Inr n)
  with assms show ?thesis
    by (subst (1 2) summarizeContent.simps)
       (auto simp: attempt_def andThen_def new_events_def emit_def wordCount_def split: if_splits)
qed

text \<open>C10, at a reply whose content is two spaces.\<close>

theorem C10_empty_reply_no_retry_witness:
  "summarizeContent blank_reply_env (Str ''article'') 0 empty_world
     = (Str [], emit (OpenRouterPost (Primary (Str ''article''))) empty_world)"
  using C10_empty_reply_no_retry
    [of blank_reply_env empty_world "Str ''article''" 0 "reply_with (Str ''  '')" "Str []"]
  by (simp add: blank_reply_env_def idle_env_def prompt_for_def summary_of_def reply_with_def
      andThen_def lookup_def trim_def is_space_def)


lemma summarize_quiet:
  "\<exists>es. snd (summarizeContent E a k w) = w\<lparr>trace := trace w @ es\<rparr>
      \<and> attempted es = [] \<and> successes es = 0 \<and> delays es = 0"
proof (induction E a k w rule: summarizeContent.induct)
  case (1 E a k w)
  let ?p = "prompt_for a k"
  show ?case
  proof (cases "attempt E (clock w) ?p")
    case (Inl e)
    then show ?thesis
      by (subst summarizeContent.simps)
         (auto simp: emit_def successes_def delays_def intro!: exI[of _ "[OpenRouterPost ?p, Log (SummarizationError e)]"])
  next
    case (Inr sn)
    obtain s n where sn: "sn = (s, n)" by (cases sn)
    show ?thesis
    proof (cases "truthy s \<and> n < 50 \<and> k < 4")
      case False
      with Inr sn show ?thesis
        by (subst summarizeContent.simps)
           (auto simp: emit_def successes_def delays_def intro!: exI[of _ "[OpenRouterPost ?p]"])
    next
      case True
      let ?w2 = "emit (Log (SummaryTooShort n)) (emit (OpenRouterPost ?p) w)"
      from True Inr sn have step: "summarizeContent E a k w = summarizeContent E a (k + 1) ?w2"
        by (subst summarizeContent.simps) simp
      from "1.IH"[of "(s, n)" s n] Inr sn True
      obtain es where es: "snd (summarizeContent E a (k + 1) ?w2) = ?w2\<lparr>trace := trace ?w2 @ es\<rparr>"
        "attempted es = []" "successes es = 0" "delays es = 0"
        by auto
      show ?thesis
        using es step
        by (intro exI[of _ "OpenRouterPost ?p # Log (SummaryTooShort n) # es"])
           (simp add: emit_def successes_def delays_def)
    qed
  qed
qed

lemma summarize_trace:
  assumes "summarizeContent E a k w = (s, w')"
  shows "\<exists>es. trace w' = trace w @ es \<and> attempted es = [] \<and> successes es = 0 \<and> delays es = 0"
  using summarize_quiet[of E a k w] assms by auto

lemma sixty_accepted: "rejected (Str sixty_words) = Inr False"
  using sixty_count by (simp add: rejected_def wordCount_def sixty_truthy andThen_def)

subsection \<open>Processing one candidate\<close>

lemma isNewsProcessed_trace:
  "isNewsProcessed E u w = (r, w') \<Longrightarrow> trace w' = trace w @ [QueryBlogs u]"
  by (auto simp: isNewsProcessed_def trace_emit split: option.splits)

lemma diffbotGet_trace:
  "diffbotGet E u w = (r, w') \<Longrightarrow> trace w' = trace w @ [DiffbotGet u]"
  by (auto simp: diffbotGet_def trace_emit)

lemma insertBlog_trace:
  "insertBlog E n s w = (r, w') \<Longrightarrow> trace w' = trace w @ [InsertBlog (link n)]"
  by (auto simp: insertBlog_def emit_def split: option.splits)

lemma insertCategory_trace:
  "insertCategory E i c w = (r, w') \<Longrightarrow> trace w' = trace w @ [InsertCategory i c]"
  by (auto simp: insertCategory_def emit_def split: option.splits)

lemma processNews_try_events:
  assumes "processNews_try E n w = (r, w')"
  shows "\<exists>es. trace w' = trace w @ QueryBlogs (link n) # es
      \<and> attempted es = [] \<and> delays es = 0
      \<and> (case r of
            Inr (Some i) \<Rightarrow> successes es = 1 \<and> es \<noteq> [] \<and> is_inserted (last es)
          | Inr None \<Rightarrow> successes es = 0 \<and> es \<noteq> [] \<and> \<not> is_inserted (last es)
          | Inl e \<Rightarrow> successes es = 0)"
  using assms unfolding processNews_try_def
  by (auto simp: trace_emit successes_def delays_def attempted_append
      split: prod.splits sum.splits if_splits
      dest!: isNewsProcessed_trace diffbotGet_trace insertBlog_trace insertCategory_trace
        summarize_trace)

lemma processNews_events:
  assumes "processNews E n w = (r, w')"
  shows "\<exists>es. trace w' = trace w @ QueryBlogs (link n) # es
      \<and> attempted es = [] \<and> delays es = 0
      \<and> successes es = (if r = None then 0 else 1)
      \<and> es \<noteq> [] \<and> is_inserted (last es) = (r \<noteq> None)"
proof (cases "processNews_try E n w")
  case (Pair r0 w0)
  from processNews_try_events[OF Pair] obtain es where es:
    "trace w0 = trace w @ QueryBlogs (link n) # es" "attempted es = []" "delays es = 0"
    "case r0 of Inr (Some i) \<Rightarrow> successes es = 1 \<and> es \<noteq> [] \<and> is_inserted (last es)
          | Inr None \<Rightarrow> successes es = 0 \<and> es \<noteq> [] \<and> \<not> is_inserted (last es)
          | Inl e \<Rightarrow> successes es = 0"
    by blast
  show ?thesis
  proof (cases r0)
    case (Inl e)
    with Pair assms es show ?thesis
      by (intro exI[of _ "es @ [Log (ProcessingError e)]"])
         (auto simp: processNews_def trace_emit attempted_append delays_append successes_append
            successes_def delays_def)
  next
    case (Inr ro)
    with Pair assms es show ?thesis
      by (intro exI[of _ es]) (auto simp: processNews_def split: option.splits)
  qed
qed


lemma isNewsProcessed_world:
  "isNewsProcessed E u w = (r, w') \<Longrightarrow> w' = emit (QueryBlogs u) w"
  by (auto simp: isNewsProcessed_def split: option.splits)

lemma summarize_blogs:
  assumes "summarizeContent E a k w = (s, w')"
  shows "blogs w' = blogs w \<and> blog_categories w' = blog_categories w"
  using summarize_quiet[of E a k w] assms by auto

lemma blogs_emit: "blogs (emit e w) = blogs w" "blog_categories (emit e w) = blog_categories w"
  by (simp_all add: emit_def)

text \<open>
  C3. The lookup of the link in \<open>blogs\<close> is the first thing \<open>processNews\<close> does, for
  every candidate. When a persisted post has the link of the candidate as its source
  link, \<open>processNews\<close> returns \<open>null\<close> and its only events are that lookup and one console
  line (the skip, or the error of the lookup itself): no call to the extraction service
  and none to the summarization service, and nothing is inserted.
\<close>

theorem C3_persisted_link_rejected_before_paid_calls:
  "(\<exists>es. new_events w (snd (processNews E n w)) = QueryBlogs (link n) # es)
   \<and> ((\<exists>r\<in>set (blogs w). source_link r = link n) \<longrightarrow>
        fst (processNews E n w) = None
      \<and> filter is_paid (new_events w (snd (processNews E n w))) = []
      \<and> new_events w (snd (processNews E n w)) =
          [QueryBlogs (link n),
           Log (case db_fault E (clock w) of
                  None \<Rightarrow> SkipProcessed (link n)
                | Some e \<Rightarrow> ProcessingError e)]
      \<and> blogs (snd (processNews E n w)) = blogs w)"
proof (intro conjI impI)
  obtain r w' where p: "processNews E n w = (r, w')" by (cases "processNews E n w")
  from processNews_events[OF p] show "\<exists>es. new_events w (snd (processNews E n w)) = QueryBlogs (link n) # es"
    using p by (auto simp: new_events_def)
next
  assume "\<exists>r\<in>set (blogs w). source_link r = link n"
  then have stored: "filter (\<lambda>r. source_link r = link n) (blogs w) \<noteq> []"
    by (auto simp: filter_empty_conv)
  show "fst (processNews E n w) = None"
    using stored
    by (auto simp: processNews_def processNews_try_def isNewsProcessed_def split: option.splits)
  show "new_events w (snd (processNews E n w)) =
          [QueryBlogs (link n),
           Log (case db_fault E (clock w) of
                  None \<Rightarrow> SkipProcessed (link n)
                | Some e \<Rightarrow> ProcessingError e)]"
    using stored
    by (auto simp: processNews_def processNews_try_def isNewsProcessed_def new_events_def emit_def
        split: option.splits)
  then show "filter is_paid (new_events w (snd (processNews E n w))) = []"
    by simp
  show "blogs (snd (processNews E n w)) = blogs w"
    using stored
    by (auto simp: processNews_def processNews_try_def isNewsProcessed_def emit_def
        split: option.splits)
qed

text \<open>C3, at a candidate whose link is the source link of the one stored post.\<close>

theorem C3_persisted_link_rejected_before_paid_calls_witness:
  "fst (processNews working_env fresh_item stored_world) = None
   \<and> new_events stored_world (snd (processNews working_env fresh_item stored_world)) =
       [QueryBlogs (Str ''http://feed.example/1''), Log (SkipProcessed (Str ''http://feed.example/1''))]"
  using C3_persisted_link_rejected_before_paid_calls[of stored_world working_env fresh_item]
  by (simp add: stored_world_def empty_world_def fresh_item_def working_env_def idle_env_def)

text \<open>
  C9. When the candidate passes the two checks, the extraction gives a text, the summary
  is accepted and the insert into \<open>blogs\<close> succeeds with a nonzero id, and then the
  insert into \<open>blog_categories\<close> throws: the row stays in \<open>blogs\<close>, no row is added to
  \<open>blog_categories\<close>, \<open>processNews\<close> returns \<open>null\<close>, and the loop of the run goes on to
  the next candidate with the count of successes unchanged.
\<close>

theorem C9_category_insert_throws_post_stays:
  assumes "isNewsProcessed E (link n) w = (Inr False, w1)"
      and "isNewsFromToday E (pubDate n) w1"
      and "diffbotGet E (link n) (emit (Log (Processing (link n))) w1) = (Inr response, w2)"
      and "article_of response = Inr article"
      and "truthy article" and "truthy (opt_prop article ''text'')"
      and "summarizeContent E (opt_prop article ''text'') 0 w2 = (summary, w3)"
      and "rejected summary = Inr False"
      and "insertBlog E n summary w3 = (Inr i, w4)"
      and "i \<noteq> 0" and "truthy (categoryId n)"
      and "insertCategory E i (categoryId n) w4 = (Inl e, w5)"
  shows "processNews E n w = (None, emit (Log (ProcessingError e)) w5)
       \<and> blogs (snd (processNews E n w)) = blogs w @
            [\<lparr>blog_id = i, blog_type = ''post'', blog_title = title n, description = summary,
              source_img = image n, source_name = source n, source_link = link n,
              created_by = 1, blog_status = 1, pub_date = pubDate n\<rparr>]
       \<and> blog_categories (snd (processNews E n w)) = blog_categories w
       \<and> (j < length newsLinks \<and> newsLinks ! j = n \<and> c < cap \<longrightarrow>
            processLoop E newsLinks cap j c w =
            processLoop E newsLinks cap (j + 1) c (snd (processNews E n w)))"
proof -
  have p: "processNews E n w = (None, emit (Log (ProcessingError e)) w5)"
    using assms by (simp add: processNews_def processNews_try_def)
  have w1: "w1 = emit (QueryBlogs (link n)) w"
    using assms(1) by (rule isNewsProcessed_world)
  have w2: "w2 = emit (DiffbotGet (link n)) (emit (Log (Processing (link n))) w1)"
    using assms(3) by (simp add: diffbotGet_def)
  have w3: "blogs w3 = blogs w2 \<and> blog_categories w3 = blog_categories w2"
    using assms(7) by (rule summarize_blogs)
  have w4: "blogs w4 = blogs w3 @
            [\<lparr>blog_id = i, blog_type = ''post'', blog_title = title n, description = summary,
              source_img = image n, source_name = source n, source_link = link n,
              created_by = 1, blog_status = 1, pub_date = pubDate n\<rparr>]
        \<and> blog_categories w4 = blog_categories w3"
    using assms(9) by (auto simp: insertBlog_def emit_def split: option.splits)
  have w5: "blogs w5 = blogs w4 \<and> blog_categories w5 = blog_categories w4"
    using assms(12) by (auto simp: insertCategory_def emit_def split: option.splits)
  have loop: "processLoop E newsLinks cap j c w =
            processLoop E newsLinks cap (j + 1) c (snd (processNews E n w))"
    if "j < length newsLinks" "newsLinks ! j = n" "c < cap"
    using that p by (subst processLoop.simps) simp
  show ?thesis
    using p w1 w2 w3 w4 w5 loop by (simp add: blogs_emit)
qed


text \<open>
  C9, at a database that throws at the sixth event of the processing, the insert of the
  category link: the post with id 5 is stored, and the run of this one candidate counts 0.
\<close>

theorem C9_category_insert_throws_post_stays_witness:
  "fst (processNews category_fault_env fresh_item empty_world) = None
   \<and> map blog_id (blogs (snd (processNews category_fault_env fresh_item empty_world))) = [5]
   \<and> map source_link (blogs (snd (processNews category_fault_env fresh_item empty_world))) =
       [Str ''http://feed.example/1'']
   \<and> blog_categories (snd (processNews category_fault_env fresh_item empty_world)) = []
   \<and> fst (processLoop category_fault_env [fresh_item] 1 0 0 empty_world) = 0"
proof -
  let ?E = category_fault_env
  let ?l = "Str ''http://feed.example/1''"
  let ?w1 = "emit (QueryBlogs ?l) empty_world"
  let ?w2 = "emit (DiffbotGet ?l) (emit (Log (Processing ?l)) ?w1)"
  let ?w3 = "emit (OpenRouterPost (Primary (Str ''body''))) ?w2"
  let ?row = "\<lparr>blog_id = 5, blog_type = ''post'', blog_title = title fresh_item,
      description = Str sixty_words, source_img = image fresh_item,
      source_name = source fresh_item, source_link = link fresh_item, created_by = 1,
      blog_status = 1, pub_date = pubDate fresh_item\<rparr>"
  let ?w4 = "emit (InsertBlog ?l) (?w3\<lparr>blogs := blogs ?w3 @ [?row]\<rparr>)"
  let ?w5 = "emit (InsertCategory 5 (Num 7)) ?w4"
  have l: "link fresh_item = ?l" by (simp add: fresh_item_def)
  have E: "db_fault ?E = (\<lambda>t. if t = 5 then Some (Failure ''link failed'') else None)"
    "insertId ?E = Suc" "sameDay ?E = (\<lambda>t d. True)" "diffbot ?E = (\<lambda>t u. Inr article_reply)"
    "openrouter ?E = (\<lambda>t p. Inr (reply_with (Str sixty_words)))"
    by (simp_all add: category_fault_env_def working_env_def idle_env_def fun_eq_iff)
  have h1: "isNewsProcessed ?E (link fresh_item) empty_world = (Inr False, ?w1)"
    by (simp add: isNewsProcessed_def E l clock_def empty_world_def)
  have h2: "isNewsFromToday ?E (pubDate fresh_item) ?w1"
    by (simp add: isNewsFromToday_def E fresh_item_def)
  have h3: "diffbotGet ?E (link fresh_item) (emit (Log (Processing (link fresh_item))) ?w1)
      = (Inr article_reply, ?w2)"
    by (simp add: diffbotGet_def E l)
  have h4: "article_of article_reply = Inr (Obj [(''text'', Str ''body'')])"
    by (simp add: article_of_def article_reply_def andThen_def lookup_def)
  have h5: "truthy (Obj [(''text'', Str ''body'')])" by simp
  have t: "opt_prop (Obj [(''text'', Str ''body'')]) ''text'' = Str ''body''"
    by (simp add: lookup_def)
  have h6: "truthy (opt_prop (Obj [(''text'', Str ''body'')]) ''text'')"
    by (simp add: lookup_def)
  have h7: "summarizeContent ?E (opt_prop (Obj [(''text'', Str ''body'')]) ''text'') 0 ?w2
      = (Str sixty_words, ?w3)"
    unfolding t
    by (subst summarizeContent.simps)
       (simp add: attempt_def E andThen_def sixty_reply sixty_count prompt_for_def)
  have h8: "rejected (Str sixty_words) = Inr False" by (rule sixty_accepted)
  have c3: "clock ?w3 = 4" by (simp add: clock_def emit_def empty_world_def)
  have h9: "insertBlog ?E fresh_item (Str sixty_words) ?w3 = (Inr 5, ?w4)"
    by (simp add: insertBlog_def E c3 l)
  have h10: "(5::nat) \<noteq> 0" by simp
  have cat: "categoryId fresh_item = Num 7" by (simp add: fresh_item_def)
  have h11: "truthy (categoryId fresh_item)" by (simp add: cat)
  have h12: "insertCategory ?E 5 (categoryId fresh_item) ?w4 = (Inl (Failure ''link failed''), ?w5)"
    by (simp add: insertCategory_def E cat clock_def emit_def empty_world_def)
  note inst = C9_category_insert_throws_post_stays[OF h1 h2 h3 h4 h5 h6 h7 h8 h9 h10 h11 h12,
      of 0 "[fresh_item]" 0 1]
  from inst have r: "processNews ?E fresh_item empty_world =
      (None, emit (Log (ProcessingError (Failure ''link failed''))) ?w5)"
    by (rule conjunct1)
  from inst have b: "blogs (snd (processNews ?E fresh_item empty_world)) = blogs empty_world @ [?row]"
    by blast
  from inst have c: "blog_categories (snd (processNews ?E fresh_item empty_world)) =
      blog_categories empty_world"
    by blast
  from inst have "0 < length [fresh_item] \<and> [fresh_item] ! 0 = fresh_item \<and> (0::nat) < 1 \<longrightarrow>
      processLoop ?E [fresh_item] 1 0 0 empty_world =
      processLoop ?E [fresh_item] 1 (0 + 1) 0 (snd (processNews ?E fresh_item empty_world))"
    by blast
  then have lp: "processLoop ?E [fresh_item] 1 0 0 empty_world =
      processLoop ?E [fresh_item] 1 (0 + 1) 0 (snd (processNews ?E fresh_item empty_world))"
    by simp
  have "processLoop ?E [fresh_item] 1 (0 + 1) 0 (snd (processNews ?E fresh_item empty_world))
      = (0, snd (processNews ?E fresh_item empty_world))"
    by (subst processLoop.simps) simp
  with lp have cnt: "fst (processLoop ?E [fresh_item] 1 0 0 empty_world) = 0"
    by simp
  have "fst (processNews ?E fresh_item empty_world) = None"
    using r by simp
  moreover have "map blog_id (blogs (snd (processNews ?E fresh_item empty_world))) = [5]"
    using b by (simp add: empty_world_def)
  moreover have "map source_link (blogs (snd (processNews ?E fresh_item empty_world))) = [?l]"
    using b by (simp add: empty_world_def l)
  moreover have "blog_categories (snd (processNews ?E fresh_item empty_world)) = []"
    using c by (simp add: empty_world_def)
  ultimately show ?thesis using cnt by simp
qed

subsection \<open>The walk over the candidates\<close>

lemma delays_follow_append:
  "delays_follow b (xs @ ys) =
     (delays_follow b xs \<and> delays_follow (if xs = [] then b else is_inserted (last xs)) ys)"
  by (induction xs arbitrary: b) auto

lemma no_delay_follow: "delays es = 0 \<Longrightarrow> delays_follow b es"
  by (induction es arbitrary: b) (auto simp: delays_def split: if_splits)

lemma no_delay_set: "delays es = 0 \<Longrightarrow> e \<in> set es \<Longrightarrow> \<not> is_delay e"
  by (auto simp: delays_def filter_empty_conv)

lemma processLoop_events:
  assumes "processLoop E L cap i c w = (c', w')"
  shows "\<exists>k es. trace w' = trace w @ es \<and> k \<le> length L - i
      \<and> attempted es = map link (take k (drop i L))
      \<and> c' = c + successes es
      \<and> (c \<le> cap \<longrightarrow> c' \<le> cap)
      \<and> (k < length L - i \<longrightarrow> cap \<le> c')
      \<and> (cap \<le> c \<longrightarrow> es = [])
      \<and> (c < cap \<and> c' = cap \<longrightarrow> es \<noteq> [] \<and> is_inserted (last es))
      \<and> delays es = min c' (cap - 1) - min c (cap - 1)
      \<and> (\<forall>b. delays_follow b es)
      \<and> (\<forall>e\<in>set es. is_delay e \<longrightarrow> e = Delay 12000)"
  using assms
proof (induction E L cap i c w arbitrary: c' w' rule: processLoop.induct)
  case (1 E L cap i c w)
  show ?case
  proof (cases "i < length L \<and> c < cap")
    case False
    have "processLoop E L cap i c w = (c, w)"
      by (subst processLoop.simps) (simp only: False if_False)
    with "1.prems" have "c' = c" "w' = w" by simp_all
    with False show ?thesis
      by (intro exI[of _ 0] exI[of _ "[]"]) (auto simp: successes_def delays_def)
  next
    case True
    obtain r w1 where p: "processNews E (L ! i) w = (r, w1)"
      by (cases "processNews E (L ! i) w")
    from processNews_events[OF p] obtain ep where
      tr1: "trace w1 = trace w @ QueryBlogs (link (L ! i)) # ep"
      and at1: "attempted ep = []" and de1: "delays ep = 0"
      and su1: "successes ep = (if r = None then 0 else 1)"
      and ne1: "ep \<noteq> []" and la1: "is_inserted (last ep) = (r \<noteq> None)"
      by blast
    let ?e1 = "QueryBlogs (link (L ! i)) # ep"
    have dr: "drop i L = L ! i # drop (Suc i) L"
      using True by (simp add: Cons_nth_drop_Suc)
    have fe: "filter is_delay ep = []"
      and fs: "length (filter is_inserted ep) = (if r = None then 0 else 1)"
      using de1 su1 by (simp_all add: delays_def successes_def)
    have f1: "delays_follow b ep" for b
      using de1 by (rule no_delay_follow)
    have nd1: "\<not> is_delay e" if "e \<in> set ?e1" for e
      using de1 that by (auto dest: no_delay_set)
    note ev = attempted_append delays_follow_append delays_def successes_def at1 fe fs ne1 f1 la1
    show ?thesis
    proof (cases r)
      case None
      have rec: "processLoop E L cap (i + 1) c w1 = (c', w')"
        using "1.prems" True p None by (subst (asm) processLoop.simps) simp
      from "1.IH"(1)[OF True p[symmetric] None rec]
      obtain k es where ih: "trace w' = trace w1 @ es" "k \<le> length L - (i + 1)"
        "attempted es = map link (take k (drop (i + 1) L))"
        "c' = c + successes es" "c \<le> cap \<longrightarrow> c' \<le> cap"
        "k < length L - (i + 1) \<longrightarrow> cap \<le> c'" "cap \<le> c \<longrightarrow> es = []"
        "c < cap \<and> c' = cap \<longrightarrow> es \<noteq> [] \<and> is_inserted (last es)"
        "delays es = min c' (cap - 1) - min c (cap - 1)"
        "\<forall>b. delays_follow b es" "\<forall>e\<in>set es. is_delay e \<longrightarrow> e = Delay 12000"
        by blast
      let ?es = "?e1 @ es"
      have a1: "trace w' = trace w @ ?es" using ih(1) tr1 by simp
      have a2: "Suc k \<le> length L - i" using ih(2) True by arith
      have a3: "attempted ?es = map link (take (Suc k) (drop i L))"
        using ih(3) dr by (simp add: ev)
      have a4: "c' = c + successes ?es"
        using ih(4) None by (simp add: ev)
      have a6: "Suc k < length L - i \<longrightarrow> cap \<le> c'"
        using ih(6) by (auto simp: less_diff_conv)
      have a7: "cap \<le> c \<longrightarrow> ?es = []" using True by simp
      have a8: "c < cap \<and> c' = cap \<longrightarrow> ?es \<noteq> [] \<and> is_inserted (last ?es)"
        using ih(8) by auto
      have a9: "delays ?es = min c' (cap - 1) - min c (cap - 1)"
        using ih(9) by (simp add: ev)
      have a10: "\<forall>b. delays_follow b ?es"
        using ih(10) by (simp add: ev)
      have a11: "\<forall>e\<in>set ?es. is_delay e \<longrightarrow> e = Delay 12000"
        using nd1 ih(11) by auto
      show ?thesis
        by (intro exI[of _ "Suc k"] exI[of _ ?es] conjI a1 a2 a3 a4 ih(5) a6 a7 a8 a9 a10 a11)
    next
      case (Some r')
      show ?thesis
      proof (cases "c + 1 < cap")
        case more: True
        have rec: "processLoop E L cap (i + 1) (c + 1) (emit (Delay 12000) w1) = (c', w')"
          using "1.prems" True p Some more by (subst (asm) processLoop.simps) simp
        from "1.IH"(2)[OF True p[symmetric] Some more rec]
        obtain k es where ih: "trace w' = trace (emit (Delay 12000) w1) @ es"
          "k \<le> length L - (i + 1)"
          "attempted es = map link (take k (drop (i + 1) L))"
          "c' = c + 1 + successes es" "c + 1 \<le> cap \<longrightarrow> c' \<le> cap"
          "k < length L - (i + 1) \<longrightarrow> cap \<le> c'" "cap \<le> c + 1 \<longrightarrow> es = []"
          "c + 1 < cap \<and> c' = cap \<longrightarrow> es \<noteq> [] \<and> is_inserted (last es)"
          "delays es = min c' (cap - 1) - min (c + 1) (cap - 1)"
          "\<forall>b. delays_follow b es" "\<forall>e\<in>set es. is_delay e \<longrightarrow> e = Delay 12000"
          by blast
        let ?es = "?e1 @ Delay 12000 # es"
        have a1: "trace w' = trace w @ ?es" using ih(1) tr1 by (simp add: trace_emit)
        have a2: "Suc k \<le> length L - i" using ih(2) True by arith
        have a3: "attempted ?es = map link (take (Suc k) (drop i L))"
          using ih(3) dr by (simp add: ev)
        have a4: "c' = c + successes ?es"
          using ih(4) Some by (simp add: ev)
        have a5: "c \<le> cap \<longrightarrow> c' \<le> cap" using ih(5) more by simp
        have a6: "Suc k < length L - i \<longrightarrow> cap \<le> c'"
          using ih(6) by (auto simp: less_diff_conv)
        have a7: "cap \<le> c \<longrightarrow> ?es = []" using True by simp
        have a8: "c < cap \<and> c' = cap \<longrightarrow> ?es \<noteq> [] \<and> is_inserted (last ?es)"
          using ih(8) more by auto
        have a9: "delays ?es = min c' (cap - 1) - min c (cap - 1)"
          using ih(9) ih(4) more by (simp add: ev)
        have a10: "\<forall>b. delays_follow b ?es"
          using ih(10) Some by (simp add: ev)
        have a11: "\<forall>e\<in>set ?es. is_delay e \<longrightarrow> e = Delay 12000"
          using nd1 ih(11) by auto
        show ?thesis
          by (intro exI[of _ "Suc k"] exI[of _ ?es] conjI a1 a2 a3 a4 a5 a6 a7 a8 a9 a10 a11)
      next
        case last: False
        have rec: "processLoop E L cap (i + 1) (c + 1) w1 = (c', w')"
          using "1.prems" True p Some last by (subst (asm) processLoop.simps) simp
        have "processLoop E L cap (i + 1) (c + 1) w1 = (c + 1, w1)"
          using last by (subst processLoop.simps) simp
        with rec have fin: "c' = c + 1" "w' = w1" by simp_all
        have a1: "trace w' = trace w @ ?e1" using fin tr1 by simp
        have a2: "Suc 0 \<le> length L - i" using True by arith
        have a3: "attempted ?e1 = map link (take (Suc 0) (drop i L))"
          using dr by (simp add: ev)
        have a4: "c' = c + successes ?e1" using fin Some by (simp add: ev)
        have a5: "c \<le> cap \<longrightarrow> c' \<le> cap" using fin True by simp
        have a6: "Suc 0 < length L - i \<longrightarrow> cap \<le> c'" using fin last by simp
        have a7: "cap \<le> c \<longrightarrow> ?e1 = []" using True by simp
        have a8: "c < cap \<and> c' = cap \<longrightarrow> ?e1 \<noteq> [] \<and> is_inserted (last ?e1)"
          using Some by (simp add: ev)
        have a9: "delays ?e1 = min c' (cap - 1) - min c (cap - 1)"
          using fin last True by (simp add: ev)
        have a10: "\<forall>b. delays_follow b ?e1" by (simp add: ev)
        have a11: "\<forall>e\<in>set ?e1. is_delay e \<longrightarrow> e = Delay 12000"
          using nd1 by blast
        show ?thesis
          by (intro exI[of _ "Suc 0"] exI[of _ ?e1] conjI a1 a2 a3 a4 a5 a6 a7 a8 a9 a10 a11)
      qed
    qed
  qed
qed

text \<open>The example walks, step by step.\<close>

lemma picky_fields:
  "db_fault picky_env = (\<lambda>t. None)" "insertId picky_env = Suc"
  "sameDay picky_env = (\<lambda>t d. d \<noteq> Str ''old'')"
  "diffbot picky_env = (\<lambda>t u. Inr article_reply)"
  "openrouter picky_env = (\<lambda>t p. Inr (reply_with (Str sixty_words)))"
  by (simp_all add: picky_env_def working_env_def idle_env_def fun_eq_iff)

lemma picky_summary:
  "summarizeContent picky_env a 0 w = (Str sixty_words, emit (OpenRouterPost (Primary a)) w)"
  by (subst summarizeContent.simps)
     (simp add: attempt_def picky_fields andThen_def sixty_reply sixty_count prompt_for_def)

lemma article_reply_text:
  "article_of article_reply = Inr (Obj [(''text'', Str ''body'')])"
  by (simp add: article_of_def article_reply_def andThen_def lookup_def)

lemma picky_new:
  assumes "Str s \<notin> set (map source_link (blogs w))"
  shows "fst (processNews picky_env (numbered s ''new'') w) = Some (clock w + 5)"
    and "trace (snd (processNews picky_env (numbered s ''new'') w)) = trace w @
      [QueryBlogs (Str s), Log (Processing (Str s)), DiffbotGet (Str s),
       OpenRouterPost (Primary (Str ''body'')), InsertBlog (Str s),
       InsertCategory (clock w + 5) (Num 7),
       Log (NewsInserted (Str ''Title'') (clock w + 5) (Num 7))]"
    and "map source_link (blogs (snd (processNews picky_env (numbered s ''new'') w))) =
      map source_link (blogs w) @ [Str s]"
proof -
  have ns: "filter (\<lambda>r. source_link r = Str s) (blogs w) = []"
    using assms by (force simp: filter_empty_conv)
  have n: "link (numbered s ''new'') = Str s" "pubDate (numbered s ''new'') = Str ''new''"
    "categoryId (numbered s ''new'') = Num 7" "title (numbered s ''new'') = Str ''Title''"
    by (simp_all add: numbered_def fresh_item_def)
  note ev = processNews_def processNews_try_def isNewsProcessed_def isNewsFromToday_def
    diffbotGet_def insertBlog_def insertCategory_def picky_fields picky_summary
    article_reply_text sixty_accepted n ns lookup_def clock_def emit_def
  show "fst (processNews picky_env (numbered s ''new'') w) = Some (clock w + 5)"
    by (simp add: ev)
  show "trace (snd (processNews picky_env (numbered s ''new'') w)) = trace w @
      [QueryBlogs (Str s), Log (Processing (Str s)), DiffbotGet (Str s),
       OpenRouterPost (Primary (Str ''body'')), InsertBlog (Str s),
       InsertCategory (clock w + 5) (Num 7),
       Log (NewsInserted (Str ''Title'') (clock w + 5) (Num 7))]"
    by (simp add: ev)
  show "map source_link (blogs (snd (processNews picky_env (numbered s ''new'') w))) =
      map source_link (blogs w) @ [Str s]"
    by (simp add: ev)
qed

lemma picky_old:
  assumes "Str s \<notin> set (map source_link (blogs w))"
  shows "fst (processNews picky_env (numbered s ''old'') w) = None"
    and "trace (snd (processNews picky_env (numbered s ''old'') w)) = trace w @
      [QueryBlogs (Str s), Log (SkipNotToday (Str s))]"
    and "map source_link (blogs (snd (processNews picky_env (numbered s ''old'') w))) =
      map source_link (blogs w)"
proof -
  have ns: "filter (\<lambda>r. source_link r = Str s) (blogs w) = []"
    using assms by (force simp: filter_empty_conv)
  have n: "link (numbered s ''old'') = Str s" "pubDate (numbered s ''old'') = Str ''old''"
    by (simp_all add: numbered_def fresh_item_def)
  note ev = processNews_def processNews_try_def isNewsProcessed_def isNewsFromToday_def
    picky_fields n ns emit_def
  show "fst (processNews picky_env (numbered s ''old'') w) = None"
    by (simp add: ev)
  show "trace (snd (processNews picky_env (numbered s ''old'') w)) = trace w @
      [QueryBlogs (Str s), Log (SkipNotToday (Str s))]"
    by (simp add: ev)
  show "map source_link (blogs (snd (processNews picky_env (numbered s ''old'') w))) =
      map source_link (blogs w)"
    by (simp add: ev)
qed

lemma loop_skip:
  assumes "i < length L" "c < cap" "fst (processNews E (L ! i) w) = None"
  shows "processLoop E L cap i c w = processLoop E L cap (Suc i) c (snd (processNews E (L ! i) w))"
proof (cases "processNews E (L ! i) w")
  case (Pair x w1)
  with assms show ?thesis by (subst processLoop.simps) simp
qed

lemma loop_delay:
  assumes "i < length L" "Suc c < cap" "fst (processNews E (L ! i) w) = Some r"
  shows "processLoop E L cap i c w =
    processLoop E L cap (Suc i) (Suc c) (emit (Delay 12000) (snd (processNews E (L ! i) w)))"
proof (cases "processNews E (L ! i) w")
  case (Pair x w1)
  with assms show ?thesis by (subst processLoop.simps) simp
qed

lemma loop_end:
  assumes "length L \<le> i \<or> cap \<le> c"
  shows "processLoop E L cap i c w = (c, w)"
  using assms by (subst processLoop.simps) auto

lemma loop_last:
  assumes "i < length L" "Suc c = cap" "fst (processNews E (L ! i) w) = Some r"
  shows "processLoop E L cap i c w = (Suc c, snd (processNews E (L ! i) w))"
proof (cases "processNews E (L ! i) w")
  case (Pair x w1)
  have "processLoop E L cap i c w = processLoop E L cap (Suc i) (Suc c) w1"
    using assms Pair by (subst processLoop.simps) auto
  also have "\<dots> = (Suc c, w1)"
    using assms(2) by (intro loop_end) simp
  finally show ?thesis using Pair by simp
qed

lemma two_run:
  "fst (processLoop picky_env two_items (itemsToProcess two_items) 0 0 empty_world) = 1"
  "new_events empty_world
     (snd (processLoop picky_env two_items (itemsToProcess two_items) 0 0 empty_world)) =
   [QueryBlogs (Str ''a''), Log (Processing (Str ''a'')), DiffbotGet (Str ''a''),
    OpenRouterPost (Primary (Str ''body'')), InsertBlog (Str ''a''),
    InsertCategory 5 (Num 7), Log (NewsInserted (Str ''Title'') 5 (Num 7)),
    Delay 12000,
    QueryBlogs (Str ''b''), Log (SkipNotToday (Str ''b''))]"
proof -
  let ?E = picky_env and ?L = two_items
  have cap: "itemsToProcess ?L = 2" by (simp add: itemsToProcess_def two_items_def)
  have L: "?L ! 0 = numbered ''a'' ''new''" "?L ! Suc 0 = numbered ''b'' ''old''" "length ?L = 2"
    by (simp_all add: two_items_def)
  have w0: "Str ''a'' \<notin> set (map source_link (blogs empty_world))" "clock empty_world = 0"
    "trace empty_world = []" "blogs empty_world = []"
    by (simp_all add: empty_world_def clock_def)
  define w1 where "w1 = emit (Delay 12000) (snd (processNews ?E (numbered ''a'' ''new'') empty_world))"
  have s0: "processLoop ?E ?L 2 0 0 empty_world = processLoop ?E ?L 2 (Suc 0) (Suc 0) w1"
    unfolding w1_def L(1)[symmetric]
    by (rule loop_delay[where r = 5]) (simp_all add: L picky_new(1)[OF w0(1)] w0)
  have t1: "trace w1 = [QueryBlogs (Str ''a''), Log (Processing (Str ''a'')), DiffbotGet (Str ''a''),
    OpenRouterPost (Primary (Str ''body'')), InsertBlog (Str ''a''),
    InsertCategory 5 (Num 7), Log (NewsInserted (Str ''Title'') 5 (Num 7)), Delay 12000]"
    and b1: "map source_link (blogs w1) = [Str ''a'']"
    by (simp_all add: w1_def trace_emit blogs_emit picky_new(2,3)[OF w0(1)] w0)
  have n1: "Str ''b'' \<notin> set (map source_link (blogs w1))" by (simp add: b1)
  define w2 where "w2 = snd (processNews ?E (numbered ''b'' ''old'') w1)"
  have s1: "processLoop ?E ?L 2 (Suc 0) (Suc 0) w1 = processLoop ?E ?L 2 (Suc (Suc 0)) (Suc 0) w2"
    unfolding w2_def L(2)[symmetric]
    by (rule loop_skip) (simp_all add: L picky_old(1)[OF n1])
  have s2: "processLoop ?E ?L 2 (Suc (Suc 0)) (Suc 0) w2 = (Suc 0, w2)"
    by (rule loop_end) (simp add: L)
  have t2: "trace w2 = trace w1 @ [QueryBlogs (Str ''b''), Log (SkipNotToday (Str ''b''))]"
    by (simp add: w2_def picky_old(2)[OF n1])
  have run: "processLoop ?E ?L (itemsToProcess ?L) 0 0 empty_world = (1, w2)"
    using s0 s1 s2 cap by simp
  show "fst (processLoop ?E ?L (itemsToProcess ?L) 0 0 empty_world) = 1"
    using run by simp
  show "new_events empty_world (snd (processLoop ?E ?L (itemsToProcess ?L) 0 0 empty_world)) =
   [QueryBlogs (Str ''a''), Log (Processing (Str ''a'')), DiffbotGet (Str ''a''),
    OpenRouterPost (Primary (Str ''body'')), InsertBlog (Str ''a''),
    InsertCategory 5 (Num 7), Log (NewsInserted (Str ''Title'') 5 (Num 7)),
    Delay 12000,
    QueryBlogs (Str ''b''), Log (SkipNotToday (Str ''b''))]"
    using run t2 t1 by (simp add: new_events_def w0)
qed

lemma five_run:
  "fst (processLoop picky_env five_items (itemsToProcess five_items) 0 0 empty_world) = 3"
  "new_events empty_world
     (snd (processLoop picky_env five_items (itemsToProcess five_items) 0 0 empty_world)) =
   [QueryBlogs (Str ''a''), Log (Processing (Str ''a'')), DiffbotGet (Str ''a''),
    OpenRouterPost (Primary (Str ''body'')), InsertBlog (Str ''a''),
    InsertCategory 5 (Num 7), Log (NewsInserted (Str ''Title'') 5 (Num 7)),
    Delay 12000,
    QueryBlogs (Str ''b''), Log (SkipNotToday (Str ''b'')),
    QueryBlogs (Str ''c''), Log (Processing (Str ''c'')), DiffbotGet (Str ''c''),
    OpenRouterPost (Primary (Str ''body'')), InsertBlog (Str ''c''),
    InsertCategory 15 (Num 7), Log (NewsInserted (Str ''Title'') 15 (Num 7)),
    Delay 12000,
    QueryBlogs (Str ''d''), Log (Processing (Str ''d'')), DiffbotGet (Str ''d''),
    OpenRouterPost (Primary (Str ''body'')), InsertBlog (Str ''d''),
    InsertCategory 23 (Num 7), Log (NewsInserted (Str ''Title'') 23 (Num 7))]"
proof -
  let ?E = picky_env and ?L = five_items
  have cap: "itemsToProcess ?L = 3" by (simp add: itemsToProcess_def five_items_def)
  have L: "?L ! 0 = numbered ''a'' ''new''" "?L ! Suc 0 = numbered ''b'' ''old''"
    "?L ! Suc (Suc 0) = numbered ''c'' ''new''" "?L ! Suc (Suc (Suc 0)) = numbered ''d'' ''new''"
    "length ?L = 5"
    by (simp_all add: five_items_def)
  have w0: "Str ''a'' \<notin> set (map source_link (blogs empty_world))" "clock empty_world = 0"
    "trace empty_world = []" "blogs empty_world = []"
    by (simp_all add: empty_world_def clock_def)
  define w1 where "w1 = emit (Delay 12000) (snd (processNews ?E (numbered ''a'' ''new'') empty_world))"
  have s0: "processLoop ?E ?L 3 0 0 empty_world = processLoop ?E ?L 3 (Suc 0) (Suc 0) w1"
    unfolding w1_def L(1)[symmetric]
    by (rule loop_delay[where r = 5]) (simp_all add: L picky_new(1)[OF w0(1)] w0)
  have t1: "trace w1 = [QueryBlogs (Str ''a''), Log (Processing (Str ''a'')), DiffbotGet (Str ''a''),
    OpenRouterPost (Primary (Str ''body'')), InsertBlog (Str ''a''),
    InsertCategory 5 (Num 7), Log (NewsInserted (Str ''Title'') 5 (Num 7)), Delay 12000]"
    and b1: "map source_link (blogs w1) = [Str ''a'']"
    by (simp_all add: w1_def trace_emit blogs_emit picky_new(2,3)[OF w0(1)] w0)
  have n1: "Str ''b'' \<notin> set (map source_link (blogs w1))" by (simp add: b1)
  define w2 where "w2 = snd (processNews ?E (numbered ''b'' ''old'') w1)"
  have s1: "processLoop ?E ?L 3 (Suc 0) (Suc 0) w1 = processLoop ?E ?L 3 (Suc (Suc 0)) (Suc 0) w2"
    unfolding w2_def L(2)[symmetric]
    by (rule loop_skip) (simp_all add: L picky_old(1)[OF n1])
  have t2: "trace w2 = trace w1 @ [QueryBlogs (Str ''b''), Log (SkipNotToday (Str ''b''))]"
    and b2: "map source_link (blogs w2) = [Str ''a'']"
    by (simp_all add: w2_def picky_old(2,3)[OF n1] b1)
  have c2: "clock w2 = 10" by (simp add: clock_def t2 t1)
  have n2: "Str ''c'' \<notin> set (map source_link (blogs w2))" by (simp add: b2)
  define w3 where "w3 = emit (Delay 12000) (snd (processNews ?E (numbered ''c'' ''new'') w2))"
  have s2: "processLoop ?E ?L 3 (Suc (Suc 0)) (Suc 0) w2 =
      processLoop ?E ?L 3 (Suc (Suc (Suc 0))) (Suc (Suc 0)) w3"
    unfolding w3_def L(3)[symmetric]
    by (rule loop_delay[where r = 15]) (simp_all add: L picky_new(1)[OF n2] c2)
  have t3: "trace w3 = trace w2 @ [QueryBlogs (Str ''c''), Log (Processing (Str ''c'')),
    DiffbotGet (Str ''c''), OpenRouterPost (Primary (Str ''body'')), InsertBlog (Str ''c''),
    InsertCategory 15 (Num 7), Log (NewsInserted (Str ''Title'') 15 (Num 7)), Delay 12000]"
    and b3: "map source_link (blogs w3) = [Str ''a'', Str ''c'']"
    by (simp_all add: w3_def trace_emit blogs_emit picky_new(2,3)[OF n2] c2 b2)
  have c3: "clock w3 = 18" by (simp add: clock_def t3 t2 t1)
  have n3: "Str ''d'' \<notin> set (map source_link (blogs w3))" by (simp add: b3)
  define w4 where "w4 = snd (processNews ?E (numbered ''d'' ''new'') w3)"
  have s3: "processLoop ?E ?L 3 (Suc (Suc (Suc 0))) (Suc (Suc 0)) w3 = (Suc (Suc (Suc 0)), w4)"
    unfolding w4_def L(4)[symmetric]
    by (rule loop_last[where r = 23]) (simp_all add: L picky_new(1)[OF n3] c3)
  have t4: "trace w4 = trace w3 @ [QueryBlogs (Str ''d''), Log (Processing (Str ''d'')),
    DiffbotGet (Str ''d''), OpenRouterPost (Primary (Str ''body'')), InsertBlog (Str ''d''),
    InsertCategory 23 (Num 7), Log (NewsInserted (Str ''Title'') 23 (Num 7))]"
    by (simp add: w4_def picky_new(2)[OF n3] c3)
  have run: "processLoop ?E ?L (itemsToProcess ?L) 0 0 empty_world = (3, w4)"
    using s0 s1 s2 s3 cap by (simp add: numeral_3_eq_3)
  show "fst (processLoop ?E ?L (itemsToProcess ?L) 0 0 empty_world) = 3"
    using run by simp
  show "new_events empty_world (snd (processLoop ?E ?L (itemsToProcess ?L) 0 0 empty_world)) =
   [QueryBlogs (Str ''a''), Log (Processing (Str ''a'')), DiffbotGet (Str ''a''),
    OpenRouterPost (Primary (Str ''body'')), InsertBlog (Str ''a''),
    InsertCategory 5 (Num 7), Log (NewsInserted (Str ''Title'') 5 (Num 7)),
    Delay 12000,
    QueryBlogs (Str ''b''), Log (SkipNotToday (Str ''b'')),
    QueryBlogs (Str ''c''), Log (Processing (Str ''c'')), DiffbotGet (Str ''c''),
    OpenRouterPost (Primary (Str ''body'')), InsertBlog (Str ''c''),
    InsertCategory 15 (Num 7), Log (NewsInserted (Str ''Title'') 15 (Num 7)),
    Delay 12000,
    QueryBlogs (Str ''d''), Log (Processing (Str ''d'')), DiffbotGet (Str ''d''),
    OpenRouterPost (Primary (Str ''body'')), InsertBlog (Str ''d''),
    InsertCategory 23 (Num 7), Log (NewsInserted (Str ''Title'') 23 (Num 7))]"
    using run t4 t3 t2 t1 by (simp add: new_events_def w0)
qed



text \<open>
  C4 (as amended). A delay of 12 seconds follows a successful insertion when the count of
  successes is still below the cap \<open>itemsToProcess\<close>, and there is no other delay. A walk
  with \<open>n\<close> successes performs \<open>min n (itemsToProcess - 1)\<close> delays: \<open>n - 1\<close> when the cap
  was reached, \<open>n\<close> when the list ended before. Every delay comes right after the console
  line of a success, so none follows a failed attempt.
\<close>

theorem C4_delay_after_each_success_below_cap:
  assumes "processLoop E newsLinks (itemsToProcess newsLinks) 0 0 w = (n, w')"
  shows "successes (new_events w w') = n
    \<and> delays (new_events w w') = min n (itemsToProcess newsLinks - 1)
    \<and> (n < itemsToProcess newsLinks \<longrightarrow> delays (new_events w w') = n)
    \<and> (n = itemsToProcess newsLinks \<longrightarrow> delays (new_events w w') = n - 1)
    \<and> delays_follow False (new_events w w')
    \<and> (\<forall>e\<in>set (new_events w w'). is_delay e \<longrightarrow> e = Delay 12000)"
proof -
  let ?cap = "itemsToProcess newsLinks"
  from processLoop_events[OF assms]
  obtain k es where ih: "trace w' = trace w @ es"
    "n = 0 + successes es" "0 \<le> ?cap \<longrightarrow> n \<le> ?cap"
    "delays es = min n (?cap - 1) - min 0 (?cap - 1)"
    "\<forall>b. delays_follow b es" "\<forall>e\<in>set es. is_delay e \<longrightarrow> e = Delay 12000"
    by blast
  have ne: "new_events w w' = es" using ih(1) by (rule new_events_append)
  show ?thesis
    using ih unfolding ne by auto
qed

text \<open>
  C4, at the five candidates: three successes reach the cap, with two delays.
\<close>

theorem C4_delay_after_each_success_below_cap_witness:
  "successes (new_events empty_world
      (snd (processLoop picky_env five_items (itemsToProcess five_items) 0 0 empty_world))) = 3
   \<and> delays (new_events empty_world
      (snd (processLoop picky_env five_items (itemsToProcess five_items) 0 0 empty_world))) = 2"
proof -
  let ?r = "processLoop picky_env five_items (itemsToProcess five_items) 0 0 empty_world"
  have r: "?r = (3, snd ?r)" using five_run(1) by (simp add: prod_eq_iff)
  have cap: "itemsToProcess five_items = 3" by (simp add: itemsToProcess_def five_items_def)
  from C4_delay_after_each_success_below_cap[OF r] cap show ?thesis by simp
qed

text \<open>
  C4 as stated fails: of two candidates the first succeeds and the second is stale; the
  run has one success and one delay, and that delay comes after the final success.
\<close>

theorem C4_delay_after_last_success_counterexample:
  "fst (processLoop picky_env two_items (itemsToProcess two_items) 0 0 empty_world) = 1
   \<and> successes (new_events empty_world
        (snd (processLoop picky_env two_items (itemsToProcess two_items) 0 0 empty_world))) = 1
   \<and> delays (new_events empty_world
        (snd (processLoop picky_env two_items (itemsToProcess two_items) 0 0 empty_world))) = 1
   \<and> drop 6 (new_events empty_world
        (snd (processLoop picky_env two_items (itemsToProcess two_items) 0 0 empty_world)))
     = [Log (NewsInserted (Str ''Title'') 5 (Num 7)), Delay 12000,
        QueryBlogs (Str ''b''), Log (SkipNotToday (Str ''b''))]"
  by (simp add: two_run successes_def delays_def)

subsection \<open>The run\<close>

lemma aggregate_grows:
  "aggregate E feeds acc w = (L, w') \<Longrightarrow> \<exists>es. trace w' = trace w @ es"
proof (induction feeds arbitrary: acc w)
  case Nil
  then show ?case by simp
next
  case (Cons feed feeds)
  from Cons.prems show ?case
    by (auto simp: trace_emit split: sum.splits prod.splits option.splits
        dest!: Cons.IH)
qed

lemma feed_aggregate:
  "aggregate feed_env (filter (\<lambda>f. feed_status f = 1) (rss_feeds feed_world)) [] w
     = (two_items, emit (ParseURL ''http://feed.example/rss'') w)"
  by (simp add: feed_env_def feed_world_def empty_world_def items_of_def andThen_def lookup_def
      candidate_def feed_item_def and_prop_def extractMediaUrl_def method1_def method2_def method3_def
      method4_def two_items_def numbered_def fresh_item_def)

text \<open>
  C2 (as amended). In a run that opens the pool and loads the feeds, the cap is the
  minimum of 3 and the number of aggregated candidates: the filter is applied inside
  \<open>processNews\<close>, candidate by candidate, after the cap was computed. The run logs this
  cap, and the count it returns is the count of the walk with this cap (the walk of C4
  and C5) and does not exceed it.
\<close>

theorem C2_cap_is_min_of_three_and_aggregated:
  assumes "createPool E = None"
      and "fetchRSSFeeds E (emit CreatePool w) = (Inr rssFeeds, w1)"
      and "aggregate E rssFeeds [] w1 = (newsLinks, w2)"
  shows "itemsToProcess newsLinks = min 3 (length newsLinks)
    \<and> Log (ProcessingUpTo (min 3 (length newsLinks)))
         \<in> set (new_events w (snd (fetchAndProcessNews E w)))
    \<and> (\<forall>n. fst (fetchAndProcessNews E w) = Inr n \<longrightarrow>
          n \<le> min 3 (length newsLinks)
        \<and> n = fst (processLoop E newsLinks (min 3 (length newsLinks)) 0 0
                  (emit (Log (ProcessingUpTo (min 3 (length newsLinks))))
                     (emit (Log (FoundItems (length newsLinks))) w2))))"
proof -
  let ?w3 = "emit (Log (ProcessingUpTo (itemsToProcess newsLinks)))
               (emit (Log (FoundItems (length newsLinks))) w2)"
  obtain n w4 where lp: "processLoop E newsLinks (itemsToProcess newsLinks) 0 0 ?w3 = (n, w4)"
    by (cases "processLoop E newsLinks (itemsToProcess newsLinks) 0 0 ?w3")
  from processLoop_events[OF lp] obtain es where es: "trace w4 = trace ?w3 @ es"
    and le: "n \<le> itemsToProcess newsLinks"
    by auto
  from aggregate_grows[OF assms(3)] obtain ea where ea: "trace w2 = trace w1 @ ea" by blast
  have w1: "trace w1 = trace w @ [CreatePool, QueryFeeds]"
    using assms(2) by (auto simp: fetchRSSFeeds_def trace_emit split: option.splits)
  have rt: "run_try E (emit CreatePool w) = (Inr n, emit (Log (Completed n)) w4)"
    using assms(2,3) lp by (simp add: run_try_def)
  have "trace (snd (fetchAndProcessNews E w)) = trace w @ [CreatePool, QueryFeeds] @ ea
      @ [Log (FoundItems (length newsLinks)), Log (ProcessingUpTo (itemsToProcess newsLinks))]
      @ es @ [Log (Completed n), PoolEnd]"
    using assms(1) rt es ea w1
    by (simp add: fetchAndProcessNews_def trace_emit split: option.splits)
  then have "Log (ProcessingUpTo (itemsToProcess newsLinks))
      \<in> set (new_events w (snd (fetchAndProcessNews E w)))"
    by (simp add: new_events_def)
  moreover have "\<forall>m. fst (fetchAndProcessNews E w) = Inr m \<longrightarrow>
      m \<le> itemsToProcess newsLinks
    \<and> m = fst (processLoop E newsLinks (itemsToProcess newsLinks) 0 0 ?w3)"
    using assms(1) rt le lp by (auto simp: fetchAndProcessNews_def split: option.splits)
  ultimately show ?thesis by (simp add: itemsToProcess_def)
qed

text \<open>
  C2, at a feed of two items: the cap logged is 2.
\<close>

theorem C2_cap_is_min_of_three_and_aggregated_witness:
  "Log (ProcessingUpTo 2) \<in> set (new_events feed_world (snd (fetchAndProcessNews feed_env feed_world)))"
proof -
  let ?w1 = "emit QueryFeeds (emit CreatePool feed_world)"
  have h1: "createPool feed_env = None"
    by (simp add: feed_env_def picky_env_def working_env_def idle_env_def)
  have h2: "fetchRSSFeeds feed_env (emit CreatePool feed_world) =
      (Inr (filter (\<lambda>f. feed_status f = 1) (rss_feeds feed_world)), ?w1)"
    by (simp add: fetchRSSFeeds_def feed_env_def picky_env_def working_env_def idle_env_def
        emit_def)
  have h3: "aggregate feed_env (filter (\<lambda>f. feed_status f = 1) (rss_feeds feed_world)) [] ?w1 =
      (two_items, emit (ParseURL ''http://feed.example/rss'') ?w1)"
    by (rule feed_aggregate)
  have m: "min 3 (length two_items) = 2" by (simp add: two_items_def)
  from C2_cap_is_min_of_three_and_aggregated[OF h1 h2 h3] show ?thesis
    unfolding m by blast
qed

text \<open>
  C2 as stated fails: the feed gives two candidates, of which the second is stale; one
  candidate survives the filter, and the cap is 2, not 1.
\<close>

theorem C2_cap_ignores_the_filter_counterexample:
  "fst (aggregate feed_env (filter (\<lambda>f. feed_status f = 1) (rss_feeds feed_world)) []
          (emit QueryFeeds (emit CreatePool feed_world))) = two_items
   \<and> itemsToProcess two_items = 2
   \<and> min 3 (length (filter (survives feed_env feed_world) two_items)) = 1"
proof -
  have a: "fst (aggregate feed_env (filter (\<lambda>f. feed_status f = 1) (rss_feeds feed_world)) []
          (emit QueryFeeds (emit CreatePool feed_world))) = two_items"
    by (simp only: feed_aggregate fst_conv)
  have b: "itemsToProcess two_items = 2"
    by (simp add: itemsToProcess_def two_items_def)
  have e: "sameDay feed_env = (\<lambda>t d. d \<noteq> Str ''old'')"
    by (simp add: feed_env_def picky_fields)
  have c: "min 3 (length (filter (survives feed_env feed_world) two_items)) = 1"
    by (simp add: two_items_def survives_def isNewsFromToday_def numbered_def fresh_item_def
        feed_world_def empty_world_def e)
  from a b c show ?thesis by simp
qed

lemma rejected_False:
  "rejected summary = Inr False \<Longrightarrow> \<exists>s. summary = Str s \<and> s \<noteq> [] \<and> 50 \<le> length (split_ws s)"
  by (cases summary) (auto simp: rejected_def andThen_def split: if_splits)

lemma rejected_True:
  "\<not> truthy summary \<or> (\<exists>s. summary = Str s \<and> length (split_ws s) < 50) \<Longrightarrow> rejected summary = Inr True"
  by (auto simp: rejected_def andThen_def)

lemma insertCategory_unit:
  "insertCategory E i c w = (Inr u, w') \<Longrightarrow> insertCategory E i c w = (Inr (), w')"
  by simp

lemma processNews_success:
  assumes "fst (processNews E n w) = Some i"
  shows "\<exists>w1 response w2 article summary w3 w4 s.
      isNewsProcessed E (link n) w = (Inr False, w1)
    \<and> isNewsFromToday E (pubDate n) w1
    \<and> diffbotGet E (link n) (emit (Log (Processing (link n))) w1) = (Inr response, w2)
    \<and> article_of response = Inr article \<and> truthy article \<and> truthy (opt_prop article ''text'')
    \<and> summarizeContent E (opt_prop article ''text'') 0 w2 = (summary, w3)
    \<and> summary = Str s \<and> s \<noteq> [] \<and> 50 \<le> length (split_ws s)
    \<and> insertBlog E n summary w3 = (Inr i, w4)
    \<and> (i \<noteq> 0 \<and> truthy (categoryId n) \<longrightarrow>
          (\<exists>w5. insertCategory E i (categoryId n) w4 = (Inr (), w5)))"
  using assms
  unfolding processNews_def processNews_try_def
  by (auto split: prod.splits sum.splits if_splits dest!: rejected_False)


lemma accepted_summary:
  "s \<noteq> [] \<Longrightarrow> 50 \<le> length (split_ws s) \<Longrightarrow> rejected (Str s) = Inr False"
  by (simp add: rejected_def andThen_def)

text \<open>
  C7 (as amended). \<open>processNews\<close> returns an id only when every step succeeded: the
  candidate passed the two checks, the extraction gave an article with a text, the
  summary is a text of at least 50 words, the insert into \<open>blogs\<close> gave the id and the
  insert of the category link did not throw. Every error turns into the return of
  \<open>null\<close>: a throw of the extraction service, a reply without article, a summarization
  that fails or stays under 50 words (nothing is inserted then), a throw of the insert.
  After a \<open>null\<close> the loop goes on to the next candidate with the same count. When the
  pool cannot be opened the run throws that error. Once the pool is open, its closing is
  the last event of the run on every path. An error thrown by the run is the error of
  opening the pool, of loading the feeds or of closing the pool; when these three succeed
  the run returns a count, whatever the parser, the services and the database do while
  the candidates are processed.
\<close>

theorem C7_only_run_level_errors_propagate:
  "(\<forall>i. fst (processNews E n w) = Some i \<longrightarrow>
      (\<exists>w1 response w2 article summary w3 w4 s.
          isNewsProcessed E (link n) w = (Inr False, w1)
        \<and> isNewsFromToday E (pubDate n) w1
        \<and> diffbotGet E (link n) (emit (Log (Processing (link n))) w1) = (Inr response, w2)
        \<and> article_of response = Inr article \<and> truthy article \<and> truthy (opt_prop article ''text'')
        \<and> summarizeContent E (opt_prop article ''text'') 0 w2 = (summary, w3)
        \<and> summary = Str s \<and> s \<noteq> [] \<and> 50 \<le> length (split_ws s)
        \<and> insertBlog E n summary w3 = (Inr i, w4)
        \<and> (i \<noteq> 0 \<and> truthy (categoryId n) \<longrightarrow>
              (\<exists>w5. insertCategory E i (categoryId n) w4 = (Inr (), w5)))))
   \<and> (\<forall>w1 e w2.
        isNewsProcessed E (link n) w = (Inr False, w1) \<and> isNewsFromToday E (pubDate n) w1
      \<and> diffbotGet E (link n) (emit (Log (Processing (link n))) w1) = (Inl e, w2)
      \<longrightarrow> processNews E n w = (None, emit (Log (ProcessingError e)) w2))
   \<and> (\<forall>w1 response w2 article.
        isNewsProcessed E (link n) w = (Inr False, w1) \<and> isNewsFromToday E (pubDate n) w1
      \<and> diffbotGet E (link n) (emit (Log (Processing (link n))) w1) = (Inr response, w2)
      \<and> article_of response = Inr article
      \<and> (\<not> truthy article \<or> \<not> truthy (opt_prop article ''text''))
      \<longrightarrow> processNews E n w = (None, emit (Log (NoArticle (link n))) w2))
   \<and> (\<forall>w1 response w2 article summary w3.
        isNewsProcessed E (link n) w = (Inr False, w1) \<and> isNewsFromToday E (pubDate n) w1
      \<and> diffbotGet E (link n) (emit (Log (Processing (link n))) w1) = (Inr response, w2)
      \<and> article_of response = Inr article \<and> truthy article \<and> truthy (opt_prop article ''text'')
      \<and> summarizeContent E (opt_prop article ''text'') 0 w2 = (summary, w3)
      \<and> (\<not> truthy summary \<or> (\<exists>s. summary = Str s \<and> length (split_ws s) < 50))
      \<longrightarrow> processNews E n w = (None, emit (Log (SummaryFailed (link n))) w3)
        \<and> blogs w3 = blogs w)
   \<and> (\<forall>w1 response w2 article s w3 e w4.
        isNewsProcessed E (link n) w = (Inr False, w1) \<and> isNewsFromToday E (pubDate n) w1
      \<and> diffbotGet E (link n) (emit (Log (Processing (link n))) w1) = (Inr response, w2)
      \<and> article_of response = Inr article \<and> truthy article \<and> truthy (opt_prop article ''text'')
      \<and> summarizeContent E (opt_prop article ''text'') 0 w2 = (Str s, w3)
      \<and> s \<noteq> [] \<and> 50 \<le> length (split_ws s)
      \<and> insertBlog E n (Str s) w3 = (Inl e, w4)
      \<longrightarrow> processNews E n w = (None, emit (Log (ProcessingError e)) w4))
   \<and> (fst (processNews E n w) = None \<and> j < length newsLinks \<and> newsLinks ! j = n \<and> c < cap
      \<longrightarrow> processLoop E newsLinks cap j c w =
          processLoop E newsLinks cap (j + 1) c (snd (processNews E n w)))
   \<and> (\<forall>e. createPool E = Some e \<longrightarrow> fetchAndProcessNews E w = (Inl e, emit CreatePool w))
   \<and> (createPool E = None \<longrightarrow>
        trace (snd (fetchAndProcessNews E w)) \<noteq> []
      \<and> last (trace (snd (fetchAndProcessNews E w))) = PoolEnd)
   \<and> (\<forall>e. fst (fetchAndProcessNews E w) = Inl e \<longrightarrow>
        createPool E = Some e
      \<or> db_fault E (Suc (clock w)) = Some e
      \<or> (\<exists>t. pool_end E t = Some e))
   \<and> (createPool E = None \<and> db_fault E (Suc (clock w)) = None \<and> (\<forall>t. pool_end E t = None) \<longrightarrow>
        (\<exists>n. fst (fetchAndProcessNews E w) = Inr n))"
proof (intro conjI)
  show "\<forall>i. fst (processNews E n w) = Some i \<longrightarrow>
      (\<exists>w1 response w2 article summary w3 w4 s.
          isNewsProcessed E (link n) w = (Inr False, w1)
        \<and> isNewsFromToday E (pubDate n) w1
        \<and> diffbotGet E (link n) (emit (Log (Processing (link n))) w1) = (Inr response, w2)
        \<and> article_of response = Inr article \<and> truthy article \<and> truthy (opt_prop article ''text'')
        \<and> summarizeContent E (opt_prop article ''text'') 0 w2 = (summary, w3)
        \<and> summary = Str s \<and> s \<noteq> [] \<and> 50 \<le> length (split_ws s)
        \<and> insertBlog E n summary w3 = (Inr i, w4)
        \<and> (i \<noteq> 0 \<and> truthy (categoryId n) \<longrightarrow>
              (\<exists>w5. insertCategory E i (categoryId n) w4 = (Inr (), w5))))"
    using processNews_success[of E n w] by blast
next
  show "\<forall>w1 e w2.
        isNewsProcessed E (link n) w = (Inr False, w1) \<and> isNewsFromToday E (pubDate n) w1
      \<and> diffbotGet E (link n) (emit (Log (Processing (link n))) w1) = (Inl e, w2)
      \<longrightarrow> processNews E n w = (None, emit (Log (ProcessingError e)) w2)"
    by (simp add: processNews_def processNews_try_def)
next
  show "\<forall>w1 response w2 article.
        isNewsProcessed E (link n) w = (Inr False, w1) \<and> isNewsFromToday E (pubDate n) w1
      \<and> diffbotGet E (link n) (emit (Log (Processing (link n))) w1) = (Inr response, w2)
      \<and> article_of response = Inr article
      \<and> (\<not> truthy article \<or> \<not> truthy (opt_prop article ''text''))
      \<longrightarrow> processNews E n w = (None, emit (Log (NoArticle (link n))) w2)"
    by (auto simp: processNews_def processNews_try_def)
next
  show "\<forall>w1 response w2 article summary w3.
        isNewsProcessed E (link n) w = (Inr False, w1) \<and> isNewsFromToday E (pubDate n) w1
      \<and> diffbotGet E (link n) (emit (Log (Processing (link n))) w1) = (Inr response, w2)
      \<and> article_of response = Inr article \<and> truthy article \<and> truthy (opt_prop article ''text'')
      \<and> summarizeContent E (opt_prop article ''text'') 0 w2 = (summary, w3)
      \<and> (\<not> truthy summary \<or> (\<exists>s. summary = Str s \<and> length (split_ws s) < 50))
      \<longrightarrow> processNews E n w = (None, emit (Log (SummaryFailed (link n))) w3)
        \<and> blogs w3 = blogs w"
  proof (intro allI impI, elim conjE)
    fix w1 response w2 article summary w3
    assume h: "isNewsProcessed E (link n) w = (Inr False, w1)" "isNewsFromToday E (pubDate n) w1"
      "diffbotGet E (link n) (emit (Log (Processing (link n))) w1) = (Inr response, w2)"
      "article_of response = Inr article" "truthy article" "truthy (opt_prop article ''text'')"
      "summarizeContent E (opt_prop article ''text'') 0 w2 = (summary, w3)"
      "\<not> truthy summary \<or> (\<exists>s. summary = Str s \<and> length (split_ws s) < 50)"
    from h(8) have r: "rejected summary = Inr True" by (rule rejected_True)
    have w2: "w2 = emit (DiffbotGet (link n)) (emit (Log (Processing (link n))) w1)"
      using h(3) by (simp add: diffbotGet_def)
    have b: "blogs w3 = blogs w"
      using summarize_blogs[OF h(7)] isNewsProcessed_world[OF h(1)]
      by (simp add: w2 blogs_emit)
    from h r b show "processNews E n w = (None, emit (Log (SummaryFailed (link n))) w3)
        \<and> blogs w3 = blogs w"
      by (simp add: processNews_def processNews_try_def)
  qed
next
  show "\<forall>w1 response w2 article s w3 e w4.
        isNewsProcessed E (link n) w = (Inr False, w1) \<and> isNewsFromToday E (pubDate n) w1
      \<and> diffbotGet E (link n) (emit (Log (Processing (link n))) w1) = (Inr response, w2)
      \<and> article_of response = Inr article \<and> truthy article \<and> truthy (opt_prop article ''text'')
      \<and> summarizeContent E (opt_prop article ''text'') 0 w2 = (Str s, w3)
      \<and> s \<noteq> [] \<and> 50 \<le> length (split_ws s)
      \<and> insertBlog E n (Str s) w3 = (Inl e, w4)
      \<longrightarrow> processNews E n w = (None, emit (Log (ProcessingError e)) w4)"
    by (simp add: processNews_def processNews_try_def accepted_summary)
next
  show "fst (processNews E n w) = None \<and> j < length newsLinks \<and> newsLinks ! j = n \<and> c < cap
      \<longrightarrow> processLoop E newsLinks cap j c w =
          processLoop E newsLinks cap (j + 1) c (snd (processNews E n w))"
    using loop_skip[of j newsLinks c cap E w] by auto
next
  show "\<forall>e. createPool E = Some e \<longrightarrow> fetchAndProcessNews E w = (Inl e, emit CreatePool w)"
    by (simp add: fetchAndProcessNews_def)
next
  show "createPool E = None \<longrightarrow>
        trace (snd (fetchAndProcessNews E w)) \<noteq> []
      \<and> last (trace (snd (fetchAndProcessNews E w))) = PoolEnd"
    by (auto simp: fetchAndProcessNews_def trace_emit split: prod.splits option.splits)
next
  show "\<forall>e. fst (fetchAndProcessNews E w) = Inl e \<longrightarrow>
        createPool E = Some e
      \<or> db_fault E (Suc (clock w)) = Some e
      \<or> (\<exists>t. pool_end E t = Some e)"
  proof (intro allI impI)
    fix e assume a: "fst (fetchAndProcessNews E w) = Inl e"
    have rt: "fst (run_try E (emit CreatePool w)) = Inl e \<Longrightarrow> db_fault E (Suc (clock w)) = Some e"
      by (auto simp: run_try_def fetchRSSFeeds_def clock_emit split: option.splits prod.splits)
    from a rt show "createPool E = Some e \<or> db_fault E (Suc (clock w)) = Some e
        \<or> (\<exists>t. pool_end E t = Some e)"
      by (auto simp: fetchAndProcessNews_def split: option.splits prod.splits)
  qed
next
  show "createPool E = None \<and> db_fault E (Suc (clock w)) = None \<and> (\<forall>t. pool_end E t = None) \<longrightarrow>
        (\<exists>n. fst (fetchAndProcessNews E w) = Inr n)"
  proof
    assume a: "createPool E = None \<and> db_fault E (Suc (clock w)) = None \<and> (\<forall>t. pool_end E t = None)"
    then have "\<exists>n. fst (run_try E (emit CreatePool w)) = Inr n"
      by (auto simp: run_try_def fetchRSSFeeds_def clock_emit split: option.splits prod.splits)
    with a show "\<exists>n. fst (fetchAndProcessNews E w) = Inr n"
      by (auto simp: fetchAndProcessNews_def split: option.splits prod.splits)
  qed
qed


lemma sixty_summary:
  assumes "openrouter E = (\<lambda>t p. Inr (reply_with (Str sixty_words)))"
  shows "summarizeContent E a 0 w = (Str sixty_words, emit (OpenRouterPost (Primary a)) w)"
  by (subst summarizeContent.simps)
     (simp add: attempt_def assms andThen_def sixty_reply sixty_count prompt_for_def)

lemma short_summary: "fst (summarizeContent short_env a 0 w) = Str thirty_words"
proof -
  have att: "attempt short_env t p = Inr (Str thirty_words, 30)" for t p
    by (simp add: attempt_def short_env_def working_env_def idle_env_def andThen_def
        thirty_reply thirty_count)
  from summarize_steps[of 0 short_env w a] obtain m where
    "fst (summarizeContent short_env a 0 w) =
       returned (attempt short_env (clock w + 2 * m) (prompt_for a (0 + m)))"
    by auto
  then show ?thesis by (simp add: att)
qed

lemma thirty_split: "length (split_ws thirty_words) = 30"
  using thirty_count by (simp add: wordCount_def thirty_truthy)

text \<open>
  C7, at a candidate whose extraction throws, at one whose summary stays at 30 words, at
  one whose insert throws, and at a run with unreachable collaborators: each candidate
  is skipped, and the run returns a count and ends with the closing of the pool.
\<close>

theorem C7_only_run_level_errors_propagate_witness:
  "fst (processNews idle_env fresh_item empty_world) = None
   \<and> fst (processNews short_env fresh_item empty_world) = None
   \<and> fst (processNews insert_fault_env fresh_item empty_world) = None
   \<and> (\<exists>n. fst (fetchAndProcessNews idle_env feed_world) = Inr n)
   \<and> last (trace (snd (fetchAndProcessNews idle_env feed_world))) = PoolEnd"
proof -
  let ?l = "link fresh_item"
  let ?w1 = "emit (QueryBlogs ?l) empty_world"
  let ?w2 = "emit (DiffbotGet ?l) (emit (Log (Processing ?l)) ?w1)"
  let ?art = "Obj [(''text'', Str ''body'')]"
  have q: "isNewsProcessed E ?l empty_world = (Inr False, ?w1)" if "db_fault E 0 = None" for E
    using that by (simp add: isNewsProcessed_def clock_def empty_world_def)
  have d: "isNewsFromToday E (pubDate fresh_item) ?w1" if "sameDay E = (\<lambda>t d. True)" for E
    using that by (simp add: isNewsFromToday_def fresh_item_def)
  have art: "article_of article_reply = Inr ?art" "truthy ?art" "truthy (opt_prop ?art ''text'')"
    "opt_prop ?art ''text'' = Str ''body''"
    by (simp_all add: article_of_def article_reply_def andThen_def lookup_def)
  \<comment> \<open>the extraction service throws\<close>
  have i: "db_fault idle_env 0 = None" "sameDay idle_env = (\<lambda>t d. True)"
    by (simp_all add: idle_env_def)
  have x: "diffbotGet idle_env ?l (emit (Log (Processing ?l)) ?w1) = (Inl (Failure ''unreachable''), ?w2)"
    by (simp add: diffbotGet_def idle_env_def)
  note inst1 = C7_only_run_level_errors_propagate[of idle_env fresh_item empty_world,
      THEN conjunct2, THEN conjunct1, rule_format]
  from inst1 q[OF i(1)] d[OF i(2)] x
  have "processNews idle_env fresh_item empty_world =
      (None, emit (Log (ProcessingError (Failure ''unreachable''))) ?w2)"
    by blast
  then have a: "fst (processNews idle_env fresh_item empty_world) = None" by simp
  \<comment> \<open>the summary stays at 30 words\<close>
  have s: "db_fault short_env 0 = None" "sameDay short_env = (\<lambda>t d. True)"
    by (simp_all add: short_env_def working_env_def idle_env_def)
  have sx: "diffbotGet short_env ?l (emit (Log (Processing ?l)) ?w1) = (Inr article_reply, ?w2)"
    by (simp add: diffbotGet_def short_env_def working_env_def idle_env_def)
  let ?w3 = "snd (summarizeContent short_env (opt_prop ?art ''text'') 0 ?w2)"
  have ss: "summarizeContent short_env (opt_prop ?art ''text'') 0 ?w2 = (Str thirty_words, ?w3)"
    using short_summary[of "opt_prop ?art ''text''" ?w2] by (simp add: prod_eq_iff)
  have sq: "\<not> truthy (Str thirty_words)
      \<or> (\<exists>s. Str thirty_words = Str s \<and> length (split_ws s) < 50)"
    by (simp add: thirty_split)
  note inst2 = C7_only_run_level_errors_propagate[of short_env fresh_item empty_world,
      THEN conjunct2, THEN conjunct2, THEN conjunct2, THEN conjunct1, rule_format]
  from inst2 q[OF s(1)] d[OF s(2)] sx art(1,2,3) ss sq
  have "processNews short_env fresh_item empty_world = (None, emit (Log (SummaryFailed ?l)) ?w3)"
    by blast
  then have b: "fst (processNews short_env fresh_item empty_world) = None" by simp
  \<comment> \<open>the insert into blogs throws\<close>
  have f: "db_fault insert_fault_env 0 = None" "sameDay insert_fault_env = (\<lambda>t d. True)"
    "openrouter insert_fault_env = (\<lambda>t p. Inr (reply_with (Str sixty_words)))"
    by (simp_all add: insert_fault_env_def working_env_def idle_env_def)
  have fx: "diffbotGet insert_fault_env ?l (emit (Log (Processing ?l)) ?w1) = (Inr article_reply, ?w2)"
    by (simp add: diffbotGet_def insert_fault_env_def working_env_def idle_env_def)
  let ?v3 = "emit (OpenRouterPost (Primary (opt_prop ?art ''text''))) ?w2"
  have fs: "summarizeContent insert_fault_env (opt_prop ?art ''text'') 0 ?w2 = (Str sixty_words, ?v3)"
    by (rule sixty_summary[OF f(3)])
  have fw: "sixty_words \<noteq> []" "50 \<le> length (split_ws sixty_words)"
    using sixty_count by (simp_all add: wordCount_def sixty_truthy)
  have fi: "insertBlog insert_fault_env fresh_item (Str sixty_words) ?v3 =
      (Inl (Failure ''insert failed''), emit (InsertBlog ?l) ?v3)"
    by (simp add: insertBlog_def insert_fault_env_def clock_def emit_def empty_world_def)
  note inst3 = C7_only_run_level_errors_propagate[of insert_fault_env fresh_item empty_world,
      THEN conjunct2, THEN conjunct2, THEN conjunct2, THEN conjunct2, THEN conjunct1, rule_format]
  from inst3 q[OF f(1)] d[OF f(2)] fx art(1,2,3) fs fw fi
  have "processNews insert_fault_env fresh_item empty_world =
      (None, emit (Log (ProcessingError (Failure ''insert failed''))) (emit (InsertBlog ?l) ?v3))"
    by blast
  then have c: "fst (processNews insert_fault_env fresh_item empty_world) = None" by simp
  \<comment> \<open>the run\<close>
  have e: "createPool idle_env = None" "db_fault idle_env (Suc (clock feed_world)) = None"
    "\<forall>t. pool_end idle_env t = None"
    by (simp_all add: idle_env_def)
  note inst4 = C7_only_run_level_errors_propagate[of idle_env fresh_item feed_world,
      THEN conjunct2, THEN conjunct2, THEN conjunct2, THEN conjunct2, THEN conjunct2, THEN conjunct2, THEN conjunct2, THEN conjunct2, THEN conjunct2]
  note inst5 = C7_only_run_level_errors_propagate[of idle_env fresh_item feed_world,
      THEN conjunct2, THEN conjunct2, THEN conjunct2, THEN conjunct2, THEN conjunct2, THEN conjunct2, THEN conjunct2, THEN conjunct1]
  from inst4 e have r1: "\<exists>n. fst (fetchAndProcessNews idle_env feed_world) = Inr n"
    by blast
  from inst5 e have r2: "last (trace (snd (fetchAndProcessNews idle_env feed_world))) = PoolEnd"
    by blast
  from a b c r1 r2 show ?thesis by blast
qed

text \<open>
  C7 as stated fails: the pool opens and the feeds load, and the error of closing the
  pool still reaches the caller.
\<close>

theorem C7_closing_error_propagates_counterexample:
  "createPool closing_fault_env = None
   \<and> db_fault closing_fault_env (Suc (clock empty_world)) = None
   \<and> fst (fetchAndProcessNews closing_fault_env empty_world) = Inl (Failure ''closing'')"
  by (simp add: fetchAndProcessNews_def closing_fault_env_def idle_env_def split: prod.splits)


end
